theory Spec2Isabelle
  imports Complex_Main "HOL-Library.Word"
begin

section \<open>The MRG32K3A host generator of rocRAND (library/src/rng/mrg32k3a.hpp)\<close>

text \<open>
  A shallow embedding of \<^verbatim>\<open>generate_kernel\<close>, of the distribution functors and of the
  class \<^verbatim>\<open>rocrand_mrg32k3a\<close>.

  \<^item> \<^verbatim>\<open>size_t\<close> and \<^verbatim>\<open>uintptr_t\<close> are 64-bit words, \<^verbatim>\<open>unsigned int\<close> is a 32-bit word;
    their arithmetic wraps as in C++.
  \<^item> The device engine \<^verbatim>\<open>mrg32k3a_device_engine\<close> is declared in a header that is not
    part of the sources at hand. Its call operator is a parameter
    \<open>next :: 'e \<Rightarrow> u32 \<times> 'e\<close> (the raw draw and the advanced engine), its constructor a
    parameter \<open>ctor seed engine_id offset\<close>.
  \<^item> The buffer \<^verbatim>\<open>data\<close> is a list of elements; offset \<open>i\<close> is \<^verbatim>\<open>data[i]\<close>. A thread
    records its stores as pairs (offset, value) in program order, and the kernel applies
    them to the buffer.
  \<^item> The threads of a launch run one after the other, in the order of their
    \<^verbatim>\<open>engine_id\<close>. A thread reads nothing but its own slot of \<^verbatim>\<open>engines\<close>, and the
    theorems below show that no two threads store to the same place.
\<close>

type_synonym u32 = "32 word"
type_synonym u64 = "64 word"

subsection \<open>Distribution functors\<close>

text \<open>
  A \<^verbatim>\<open>Distribution\<close> has the two static widths and a call operator that reads
  \<^verbatim>\<open>input[input_width]\<close> and fills \<^verbatim>\<open>output[output_width]\<close>.
\<close>

record 'a distribution =
  input_width :: u32
  output_width :: u32
  transform :: "u32 list \<Rightarrow> 'a list"

subsection \<open>The three regions of the buffer (lines 77 to 84)\<close>

text \<open>
  \<^verbatim>\<open>misalignment = (output_width - uintptr / sizeof(T) % output_width) % output_width\<close>,
  computed in \<^verbatim>\<open>size_t\<close>; \<open>sz\<close> is \<^verbatim>\<open>sizeof(T)\<close>.
\<close>

definition misalignment :: "u32 \<Rightarrow> u64 \<Rightarrow> u64 \<Rightarrow> u64" where
  "misalignment ow sz uintptr = (ucast ow - (uintptr div sz) mod ucast ow) mod ucast ow"

text \<open>\<^verbatim>\<open>const unsigned int head_size = min(n, misalignment)\<close>: the minimum is narrowed to 32 bits.\<close>

definition head_size :: "u64 \<Rightarrow> u64 \<Rightarrow> u32" where
  "head_size n mis = ucast (min n mis)"

text \<open>\<^verbatim>\<open>const unsigned int tail_size = (n - head_size) % output_width\<close>.\<close>

definition tail_size :: "u32 \<Rightarrow> u64 \<Rightarrow> u32 \<Rightarrow> u32" where
  "tail_size ow n hs = ucast ((n - ucast hs) mod ucast ow)"

text \<open>\<^verbatim>\<open>const size_t vec_n = (n - head_size) / output_width\<close>.\<close>

definition vec_n :: "u32 \<Rightarrow> u64 \<Rightarrow> u32 \<Rightarrow> u64" where
  "vec_n ow n hs = (n - ucast hs) div ucast ow"

subsection \<open>One thread of \<^verbatim>\<open>generate_kernel\<close>\<close>

text \<open>
  The local state of a thread: its copy of the engine, the stores to \<^verbatim>\<open>data\<close> it has
  executed (offset and value, oldest first), and the number of calls of \<^verbatim>\<open>engine()\<close> it
  has made. The counter is bookkeeping for the statements about draws; nothing reads it.
\<close>

record ('e, 'a) thread_state =
  engine :: 'e
  stores :: "(nat \<times> 'a) list"
  draws :: nat

text \<open>The engine after one call of \<^verbatim>\<open>engine()\<close>.\<close>

definition advance :: "('e \<Rightarrow> u32 \<times> 'e) \<Rightarrow> 'e \<Rightarrow> 'e" where
  "advance next e = snd (next e)"

text \<open>\<^verbatim>\<open>for(i = 0; i < input_width; i++) input[i] = engine();\<close>\<close>

primrec fill_input ::
  "('e \<Rightarrow> u32 \<times> 'e) \<Rightarrow> nat \<Rightarrow> ('e, 'a) thread_state \<Rightarrow> u32 list \<times> ('e, 'a) thread_state" where
  "fill_input next 0 st = ([], st)"
| "fill_input next (Suc k) st =
     (let (r, e) = next (engine st);
          (rs, st') = fill_input next k (st\<lparr>engine := e, draws := Suc (draws st)\<rparr>)
      in (r # rs, st'))"

text \<open>The draws followed by \<^verbatim>\<open>distribution(input, output)\<close>.\<close>

definition generate_output ::
  "('e \<Rightarrow> u32 \<times> 'e) \<Rightarrow> 'a distribution \<Rightarrow> ('e, 'a) thread_state
     \<Rightarrow> 'a list \<times> ('e, 'a) thread_state" where
  "generate_output next D st =
     (let (input, st') = fill_input next (unat (input_width D)) st
      in (transform D input, st'))"

text \<open>
  \<^verbatim>\<open>vec_data[index] = *reinterpret_cast<vec_type *>(output)\<close> with
  \<^verbatim>\<open>vec_data = data + misalignment\<close>: one store of \<open>output_width\<close> consecutive elements.
\<close>

definition vec_store :: "nat \<Rightarrow> nat \<Rightarrow> 'a list \<Rightarrow> (nat \<times> 'a) list" where
  "vec_store base ow output = map (\<lambda>j. (base + j, output ! j)) [0..<ow]"

definition vec_body ::
  "('e \<Rightarrow> u32 \<times> 'e) \<Rightarrow> 'a distribution \<Rightarrow> u64 \<Rightarrow> u64 \<Rightarrow> ('e, 'a) thread_state
     \<Rightarrow> ('e, 'a) thread_state" where
  "vec_body next D mis index st =
     (let (output, st') = generate_output next D st
      in st'\<lparr>stores := stores st' @
           vec_store (unat mis + unat index * unat (output_width D)) (unat (output_width D)) output\<rparr>)"

text \<open>
  \<^verbatim>\<open>while(index < vec_n) { ...; index += stride; }\<close>. The index is a \<^verbatim>\<open>size_t\<close> and the
  addition wraps, so the loop need not end: \<open>None\<close> is a thread that never leaves it.
\<close>

partial_function (option) vec_loop ::
  "('e \<Rightarrow> u32 \<times> 'e) \<Rightarrow> 'a distribution \<Rightarrow> u32 \<Rightarrow> u64 \<Rightarrow> u64 \<Rightarrow> u64 \<Rightarrow> ('e, 'a) thread_state
     \<Rightarrow> (u64 \<times> ('e, 'a) thread_state) option" where
  "vec_loop next D stride mis vn index st =
     (if index < vn
      then vec_loop next D stride mis vn (index + ucast stride) (vec_body next D mis index st)
      else Some (index, st))"

declare vec_loop.simps [code]

text \<open>
  The head: \<^verbatim>\<open>for(o = 0; o < output_width; o++) if(o < head_size) data[o] = output[o];\<close>
\<close>

definition head_store :: "u32 \<Rightarrow> u32 \<Rightarrow> 'a list \<Rightarrow> (nat \<times> 'a) list" where
  "head_store ow hs output =
     map (\<lambda>j. (j, output ! j)) (filter (\<lambda>j. j < unat hs) [0..<unat ow])"

text \<open>
  The tail: \<^verbatim>\<open>if(o < tail_size) data[n - tail_size + o] = output[o];\<close> with the index computed
  in \<^verbatim>\<open>size_t\<close>.
\<close>

definition tail_store :: "u32 \<Rightarrow> u64 \<Rightarrow> u32 \<Rightarrow> 'a list \<Rightarrow> (nat \<times> 'a) list" where
  "tail_store ow n ts output =
     map (\<lambda>j. (unat (n - ucast ts + word_of_nat j), output ! j))
       (filter (\<lambda>j. j < unat ts) [0..<unat ow])"

text \<open>Lines 103 to 139: \<^verbatim>\<open>if(output_width > 1 && index == vec_n) { head; tail }\<close>.\<close>

definition save_head_tail ::
  "('e \<Rightarrow> u32 \<times> 'e) \<Rightarrow> 'a distribution \<Rightarrow> u64 \<Rightarrow> u32 \<Rightarrow> u32 \<Rightarrow> u64 \<Rightarrow> u64
     \<Rightarrow> ('e, 'a) thread_state \<Rightarrow> ('e, 'a) thread_state" where
  "save_head_tail next D n hs ts vn index st =
     (if 1 < output_width D \<and> index = vn then
        let st1 = (if 0 < hs then
                     let (output, s) = generate_output next D st
                     in s\<lparr>stores := stores s @ head_store (output_width D) hs output\<rparr>
                   else st);
            st2 = (if 0 < ts then
                     let (output, s) = generate_output next D st1
                     in s\<lparr>stores := stores s @ tail_store (output_width D) n ts output\<rparr>
                   else st1)
        in st2
      else st)"

text \<open>
  The body of the kernel between the load of the engine and its store back, for the thread
  \<open>engine_id\<close> of a launch with \<open>stride\<close> threads; \<open>e\<close> is the engine it loaded.
\<close>

definition generate_thread ::
  "('e \<Rightarrow> u32 \<times> 'e) \<Rightarrow> 'a distribution \<Rightarrow> u64 \<Rightarrow> u64 \<Rightarrow> u64 \<Rightarrow> u32 \<Rightarrow> u32 \<Rightarrow> 'e
     \<Rightarrow> ('e, 'a) thread_state option" where
  "generate_thread next D sz uintptr n stride engine_id e =
     (let mis = misalignment (output_width D) sz uintptr;
          hs = head_size n mis;
          ts = tail_size (output_width D) n hs;
          vn = vec_n (output_width D) n hs
      in case vec_loop next D stride mis vn (ucast engine_id)
                \<lparr>engine = e, stores = [], draws = 0\<rparr> of
           None \<Rightarrow> None
         | Some (index, st) \<Rightarrow> Some (save_head_tail next D n hs ts vn index st))"

subsection \<open>The kernels\<close>

text \<open>
  \<^verbatim>\<open>engine_id = hipBlockIdx_x * hipBlockDim_x + hipThreadIdx_x\<close> for every thread of every
  block of the grid, block after block; the arithmetic is that of \<^verbatim>\<open>unsigned int\<close>.
\<close>

definition engine_ids :: "u32 \<Rightarrow> u32 \<Rightarrow> u32 list" where
  "engine_ids gridDim blockDim =
     concat (map (\<lambda>b. map (\<lambda>t. word_of_nat b * blockDim + word_of_nat t) [0..<unat blockDim])
                 [0..<unat gridDim])"

text \<open>
  \<^verbatim>\<open>init_engines_kernel\<close>: \<^verbatim>\<open>engines[engine_id] = mrg32k3a_device_engine(seed, engine_id, offset)\<close>
  in every thread.
\<close>

definition init_engines_kernel ::
  "(u64 \<Rightarrow> u32 \<Rightarrow> u64 \<Rightarrow> 'e) \<Rightarrow> u32 \<Rightarrow> u32 \<Rightarrow> 'e list \<Rightarrow> u64 \<Rightarrow> u64 \<Rightarrow> 'e list" where
  "init_engines_kernel ctor gridDim blockDim engines seed offset =
     fold (\<lambda>engine_id es. es[unat engine_id := ctor seed engine_id offset])
       (engine_ids gridDim blockDim) engines"

text \<open>
  What \<^verbatim>\<open>generate_kernel\<close> works on: the array of engines and the buffer. Two fields are
  bookkeeping that nothing reads: \<open>trace\<close> collects the stores of the threads that have
  run, and \<open>total_draws\<close> adds up their counters.
\<close>

record ('e, 'a) kernel_state =
  engines :: "'e list"
  data :: "'a list"
  trace :: "(nat \<times> 'a) list"
  total_draws :: nat

text \<open>The stores of a thread reach the buffer in program order.\<close>

definition store_all :: "(nat \<times> 'a) list \<Rightarrow> 'a list \<Rightarrow> 'a list" where
  "store_all ws xs = fold (\<lambda>w ys. ys[fst w := snd w]) ws xs"

text \<open>
  One thread of \<^verbatim>\<open>generate_kernel\<close>, from \<^verbatim>\<open>engine = engines[engine_id]\<close> to
  \<^verbatim>\<open>engines[engine_id] = engine\<close>; \<open>stride\<close> is \<^verbatim>\<open>hipGridDim_x * hipBlockDim_x\<close>.
\<close>

definition kernel_thread ::
  "('e \<Rightarrow> u32 \<times> 'e) \<Rightarrow> 'a distribution \<Rightarrow> u64 \<Rightarrow> u64 \<Rightarrow> u64 \<Rightarrow> u32 \<Rightarrow> u32
     \<Rightarrow> ('e, 'a) kernel_state \<Rightarrow> ('e, 'a) kernel_state option" where
  "kernel_thread next D sz uintptr n stride engine_id k =
     (case generate_thread next D sz uintptr n stride engine_id (engines k ! unat engine_id) of
        None \<Rightarrow> None
      | Some st \<Rightarrow>
          Some \<lparr>engines = (engines k)[unat engine_id := engine st],
                data = store_all (stores st) (data k),
                trace = trace k @ stores st,
                total_draws = total_draws k + draws st\<rparr>)"

fun run_threads ::
  "(u32 \<Rightarrow> ('e, 'a) kernel_state \<Rightarrow> ('e, 'a) kernel_state option) \<Rightarrow> u32 list
     \<Rightarrow> ('e, 'a) kernel_state \<Rightarrow> ('e, 'a) kernel_state option" where
  "run_threads f [] k = Some k"
| "run_threads f (engine_id # ids) k =
     (case f engine_id k of None \<Rightarrow> None | Some k' \<Rightarrow> run_threads f ids k')"

text \<open>
  \<^verbatim>\<open>generate_kernel(engines, data, n, distribution)\<close> launched on \<open>gridDim\<close> blocks of
  \<open>blockDim\<close> threads; \<open>uintptr\<close> is the address \<^verbatim>\<open>data\<close> and \<open>sz\<close> is \<^verbatim>\<open>sizeof(T)\<close>.
  \<open>None\<close>: some thread never leaves its loop.
\<close>

definition generate_kernel ::
  "('e \<Rightarrow> u32 \<times> 'e) \<Rightarrow> 'a distribution \<Rightarrow> u64 \<Rightarrow> u32 \<Rightarrow> u32 \<Rightarrow> u64 \<Rightarrow> u64
     \<Rightarrow> ('e, 'a) kernel_state \<Rightarrow> ('e, 'a) kernel_state option" where
  "generate_kernel next D sz gridDim blockDim uintptr n k =
     run_threads (kernel_thread next D sz uintptr n (gridDim * blockDim))
       (engine_ids gridDim blockDim) k"

subsection \<open>Normal and log-normal functors\<close>

text \<open>
  The device functions the functors call are declared in headers that are not part of the
  sources at hand, and they compute in floating point. They are parameters: an element
  type \<open>'f\<close> with its \<^verbatim>\<open>+\<close>, its \<^verbatim>\<open>*\<close>, its exponential (\<^verbatim>\<open>expf\<close> for \<^verbatim>\<open>float\<close>, \<^verbatim>\<open>exp\<close> for
  \<^verbatim>\<open>double\<close>) and its Box-Muller pair (\<^verbatim>\<open>mrg_normal_distribution2\<close> for \<^verbatim>\<open>float\<close>,
  \<^verbatim>\<open>mrg_normal_distribution_double2\<close> for \<^verbatim>\<open>double\<close>).
\<close>

record 'f float_ops =
  fadd :: "'f \<Rightarrow> 'f \<Rightarrow> 'f"
  fmul :: "'f \<Rightarrow> 'f \<Rightarrow> 'f"
  fexp :: "'f \<Rightarrow> 'f"
  normal_distribution2 :: "u32 \<Rightarrow> u32 \<Rightarrow> 'f \<times> 'f"

text \<open>
  \<^verbatim>\<open>mrg_normal_distribution<float>\<close> and \<^verbatim>\<open>mrg_normal_distribution<double>\<close>: the two
  specialisations have the same text up to the names above.
\<close>

definition mrg_normal_distribution :: "'f float_ops \<Rightarrow> 'f \<Rightarrow> 'f \<Rightarrow> 'f distribution" where
  "mrg_normal_distribution F mean stddev =
     \<lparr>input_width = 2, output_width = 2,
      transform = (\<lambda>input.
        let v = normal_distribution2 F (input ! 0) (input ! 1)
        in [fadd F mean (fmul F (fst v) stddev), fadd F mean (fmul F (snd v) stddev)])\<rparr>"

text \<open>\<^verbatim>\<open>mrg_log_normal_distribution<float>\<close> and \<^verbatim>\<open>mrg_log_normal_distribution<double>\<close>.\<close>

definition mrg_log_normal_distribution :: "'f float_ops \<Rightarrow> 'f \<Rightarrow> 'f \<Rightarrow> 'f distribution" where
  "mrg_log_normal_distribution F mean stddev =
     \<lparr>input_width = 2, output_width = 2,
      transform = (\<lambda>input.
        let v = normal_distribution2 F (input ! 0) (input ! 1)
        in [fexp F (fadd F mean (fmul F (fst v) stddev)),
            fexp F (fadd F mean (fmul F (snd v) stddev))])\<rparr>"

text \<open>
  The \<^verbatim>\<open>__half\<close> specialisations. \<open>uint_norm\<close> is
  \<^verbatim>\<open>static_cast<unsigned int>(x * ROCRAND_MRG32K3A_UINT_NORM)\<close>, a product in \<^verbatim>\<open>double\<close>;
  \<open>'h\<close> is \<^verbatim>\<open>__half\<close> and \<open>'f\<close> is \<^verbatim>\<open>float\<close>.
\<close>

record ('h, 'f) half_ops =
  uint_norm :: "u32 \<Rightarrow> u32"
  uniform_distribution_half :: "16 word \<Rightarrow> 'h"
  mrg_box_muller_half :: "'h \<Rightarrow> 'h \<Rightarrow> 'h \<times> 'h"
  hadd :: "'h \<Rightarrow> 'h \<Rightarrow> 'h"
  hmul :: "'h \<Rightarrow> 'h \<Rightarrow> 'h"
  hexp :: "'h \<Rightarrow> 'h"
  half2float :: "'h \<Rightarrow> 'f"
  float2half :: "'f \<Rightarrow> 'h"
  float_add :: "'f \<Rightarrow> 'f \<Rightarrow> 'f"
  float_mul :: "'f \<Rightarrow> 'f \<Rightarrow> 'f"
  expf :: "'f \<Rightarrow> 'f"

text \<open>
  The pair \<^verbatim>\<open>v\<close> both \<^verbatim>\<open>__half\<close> functors start from:
  \<^verbatim>\<open>mrg_box_muller_half(uniform_distribution_half(static_cast<short>(a)),
  uniform_distribution_half(static_cast<short>(a >> 16)))\<close>.
\<close>

definition half_pair :: "('h, 'f) half_ops \<Rightarrow> u32 list \<Rightarrow> 'h \<times> 'h" where
  "half_pair H input =
     (let a = uint_norm H (input ! 0)
      in mrg_box_muller_half H (uniform_distribution_half H (ucast a))
           (uniform_distribution_half H (ucast (drop_bit 16 a))))"

text \<open>
  \<^verbatim>\<open>mrg_normal_distribution<__half>\<close>. \<open>native\<close> is the condition of the \<^verbatim>\<open>#if\<close>: half
  arithmetic where the platform has it, arithmetic in \<^verbatim>\<open>float\<close> otherwise.
\<close>

definition mrg_normal_distribution_half ::
  "('h, 'f) half_ops \<Rightarrow> bool \<Rightarrow> 'h \<Rightarrow> 'h \<Rightarrow> 'h distribution" where
  "mrg_normal_distribution_half H native mean stddev =
     \<lparr>input_width = 1, output_width = 2,
      transform = (\<lambda>input.
        let v = half_pair H input
        in if native
           then [hadd H mean (hmul H (fst v) stddev), hadd H mean (hmul H (snd v) stddev)]
           else [float2half H (float_add H (half2float H mean)
                    (float_mul H (half2float H stddev) (half2float H (fst v)))),
                 float2half H (float_add H (half2float H mean)
                    (float_mul H (half2float H stddev) (half2float H (snd v))))])\<rparr>"

text \<open>\<^verbatim>\<open>mrg_log_normal_distribution<__half>\<close>.\<close>

definition mrg_log_normal_distribution_half ::
  "('h, 'f) half_ops \<Rightarrow> bool \<Rightarrow> 'h \<Rightarrow> 'h \<Rightarrow> 'h distribution" where
  "mrg_log_normal_distribution_half H native mean stddev =
     \<lparr>input_width = 1, output_width = 2,
      transform = (\<lambda>input.
        let v = half_pair H input
        in if native
           then [hexp H (hadd H mean (hmul H (fst v) stddev)),
                 hexp H (hadd H mean (hmul H (snd v) stddev))]
           else [float2half H (expf H (float_add H (half2float H mean)
                    (float_mul H (half2float H stddev) (half2float H (fst v))))),
                 float2half H (expf H (float_add H (half2float H mean)
                    (float_mul H (half2float H stddev) (half2float H (snd v)))))])\<rparr>"

subsection \<open>The class \<^verbatim>\<open>rocrand_mrg32k3a\<close>\<close>

text \<open>
  The status values the class names. The enumeration itself is declared in
  \<^verbatim>\<open>rocrand.h\<close>, which is not part of the sources at hand; \<open>INVALID_PARAMETER\<close> stands
  for the status the specification calls invalid-parameter.
\<close>

datatype rocrand_status =
  ROCRAND_STATUS_SUCCESS
| ROCRAND_STATUS_ALLOCATION_FAILED
| ROCRAND_STATUS_LAUNCH_FAILURE
| INVALID_PARAMETER

text \<open>
  What the class takes from elsewhere: the static constants \<^verbatim>\<open>s_threads\<close> and \<^verbatim>\<open>s_blocks\<close>
  (128 and 128 under \<^verbatim>\<open>__HIP_PLATFORM_NVCC__\<close>, 256 and 512 otherwise), the constant
  \<^verbatim>\<open>ROCRAND_MRG32K3A_DEFAULT_SEED\<close>, and the constructor and the call operator of the
  device engine.
\<close>

record 'e platform =
  s_threads :: u32
  s_blocks :: u32
  DEFAULT_SEED :: u64
  engine_ctor :: "u64 \<Rightarrow> u32 \<Rightarrow> u64 \<Rightarrow> 'e"
  engine_call :: "'e \<Rightarrow> u32 \<times> 'e"

text \<open>
  The Poisson cache \<^verbatim>\<open>poisson_distribution_manager\<close>: the lambda it was last set to and
  the functor \<^verbatim>\<open>dis\<close> built for it. \<^verbatim>\<open>double\<close> is modelled by the reals.
\<close>

record poisson_distribution_manager =
  pm_lambda :: real
  dis :: "u32 distribution"

record 'e rocrand_mrg32k3a =
  m_seed :: u64
  m_offset :: u64
  m_engines_initialized :: bool
  m_engines :: "'e list"
  m_poisson :: poisson_distribution_manager

text \<open>
  The constructor. \<open>alloc\<close> is the outcome of \<^verbatim>\<open>hipMalloc\<close>: \<open>None\<close> when it fails (the
  constructor throws \<^verbatim>\<open>ROCRAND_STATUS_ALLOCATION_FAILED\<close>), otherwise the fresh array of
  \<^verbatim>\<open>s_threads * s_blocks\<close> engines. \<open>pm\<close> is the default-constructed Poisson cache. The
  base class stores \<open>seed\<close> and \<open>offset\<close>; the body then replaces a zero seed.
\<close>

definition new_rocrand_mrg32k3a ::
  "'e platform \<Rightarrow> 'e list option \<Rightarrow> poisson_distribution_manager \<Rightarrow> u64 \<Rightarrow> u64
     \<Rightarrow> rocrand_status + 'e rocrand_mrg32k3a" where
  "new_rocrand_mrg32k3a P alloc pm seed offset =
     (case alloc of
        None \<Rightarrow> Inl ROCRAND_STATUS_ALLOCATION_FAILED
      | Some es \<Rightarrow>
          let h = \<lparr>m_seed = seed, m_offset = offset, m_engines_initialized = False,
                   m_engines = es, m_poisson = pm\<rparr>
          in Inr (if m_seed h = 0 then h\<lparr>m_seed := DEFAULT_SEED P\<rparr> else h))"

definition reset :: "'e rocrand_mrg32k3a \<Rightarrow> 'e rocrand_mrg32k3a" where
  "reset h = h\<lparr>m_engines_initialized := False\<rparr>"

definition set_seed :: "'e platform \<Rightarrow> u64 \<Rightarrow> 'e rocrand_mrg32k3a \<Rightarrow> 'e rocrand_mrg32k3a" where
  "set_seed P seed h =
     (let seed' = (if seed = 0 then DEFAULT_SEED P else seed)
      in h\<lparr>m_seed := seed', m_engines_initialized := False\<rparr>)"


text \<open>
  A kernel launch followed by \<^verbatim>\<open>hipPeekAtLastError()\<close>, as \<^verbatim>\<open>init()\<close> and \<^verbatim>\<open>generate\<close> have
  it: the kernel is launched first and the last error of the host thread is read
  afterwards, without being reset. The runtime is not part of the sources at hand; what
  it can do is one of three things. \<open>Launched\<close>: the kernel ran and the peek gives
  \<^verbatim>\<open>hipSuccess\<close>. \<open>Launched_error_pending\<close>: the kernel ran, and the peek gives an error all
  the same, one that an earlier call of the runtime left behind. \<open>Launch_failed\<close>: the
  launch failed, no thread ran, and the peek gives that error.
\<close>

datatype launch = Launched | Launched_error_pending | Launch_failed

fun kernel_ran :: "launch \<Rightarrow> bool" where
  "kernel_ran Launched = True"
| "kernel_ran Launched_error_pending = True"
| "kernel_ran Launch_failed = False"

fun peek_success :: "launch \<Rightarrow> bool" where
  "peek_success Launched = True"
| "peek_success Launched_error_pending = False"
| "peek_success Launch_failed = False"

text \<open>
  \<^verbatim>\<open>init()\<close>: nothing on an initialised handle; otherwise the launch of
  \<^verbatim>\<open>init_engines_kernel\<close> on \<^verbatim>\<open>m_engines\<close>, then the test of \<^verbatim>\<open>hipPeekAtLastError()\<close>, and
  the flag is set only past that test. \<open>l\<close> is what the launch did.
\<close>

definition init ::
  "'e platform \<Rightarrow> launch \<Rightarrow> 'e rocrand_mrg32k3a \<Rightarrow> rocrand_status \<times> 'e rocrand_mrg32k3a" where
  "init P l h =
     (if m_engines_initialized h then (ROCRAND_STATUS_SUCCESS, h)
      else
        let h1 = (if kernel_ran l
                  then h\<lparr>m_engines := init_engines_kernel (engine_ctor P) (s_blocks P)
                                         (s_threads P) (m_engines h) (m_seed h) (m_offset h)\<rparr>
                  else h)
        in if \<not> peek_success l then (ROCRAND_STATUS_LAUNCH_FAILURE, h1)
           else (ROCRAND_STATUS_SUCCESS, h1\<lparr>m_engines_initialized := True\<rparr>))"

text \<open>
  \<^verbatim>\<open>generate(data, data_size, distribution)\<close>: \<^verbatim>\<open>init()\<close>, whose status is returned when it
  is not success; otherwise the launch of \<^verbatim>\<open>generate_kernel\<close> on \<^verbatim>\<open>m_engines\<close> and \<^verbatim>\<open>data\<close>,
  then the test of \<^verbatim>\<open>hipPeekAtLastError()\<close>. \<open>l_init\<close> and \<open>l_gen\<close> are what the two
  launches did, \<open>uintptr\<close> is the address \<^verbatim>\<open>data\<close>, \<open>sz\<close> is \<^verbatim>\<open>sizeof(T)\<close> and \<open>buf\<close> is the
  content of the buffer. The result is the status, the handle and the buffer afterwards;
  \<open>None\<close> when the kernel does not end.
\<close>

definition generate ::
  "'e platform \<Rightarrow> 'a distribution \<Rightarrow> u64 \<Rightarrow> launch \<Rightarrow> launch \<Rightarrow> u64 \<Rightarrow> u64
     \<Rightarrow> 'e rocrand_mrg32k3a \<Rightarrow> 'a list
     \<Rightarrow> (rocrand_status \<times> 'e rocrand_mrg32k3a \<times> 'a list) option" where
  "generate P D sz l_init l_gen uintptr data_size h buf =
     (case init P l_init h of
        (status, h1) \<Rightarrow>
          if status \<noteq> ROCRAND_STATUS_SUCCESS then Some (status, h1, buf)
          else
            let k0 = \<lparr>engines = m_engines h1, data = buf, trace = [], total_draws = 0\<rparr>
            in case (if kernel_ran l_gen
                     then generate_kernel (engine_call P) D sz (s_blocks P) (s_threads P)
                            uintptr data_size k0
                     else Some k0) of
                 None \<Rightarrow> None
               | Some k \<Rightarrow>
                   Some (if \<not> peek_success l_gen then ROCRAND_STATUS_LAUNCH_FAILURE
                         else ROCRAND_STATUS_SUCCESS,
                         h1\<lparr>m_engines := engines k\<rparr>, data k))"

text \<open>
  Modelled from the spec: \<^verbatim>\<open>poisson_distribution_manager::set_lambda\<close>, which is declared
  in \<^verbatim>\<open>distributions.hpp\<close> and is not part of the sources at hand. The specification has
  it fail with an invalid-parameter error for a lambda that is not positive, before
  anything is launched, and rebuild the table only when the lambda differs from the cached
  one; the rebuild \<open>build\<close> is an external collaborator that can fail to allocate.
\<close>

definition set_lambda ::
  "(real \<Rightarrow> rocrand_status + u32 distribution) \<Rightarrow> real \<Rightarrow> poisson_distribution_manager
     \<Rightarrow> rocrand_status + poisson_distribution_manager" where
  "set_lambda build lambda pm =
     (if lambda \<le> 0 then Inl INVALID_PARAMETER
      else if lambda = pm_lambda pm then Inr pm
      else case build lambda of
             Inl status \<Rightarrow> Inl status
           | Inr d \<Rightarrow> Inr \<lparr>pm_lambda = lambda, dis = d\<rparr>)"

text \<open>
  \<^verbatim>\<open>generate_poisson(data, data_size, lambda)\<close>: a status thrown by \<^verbatim>\<open>set_lambda\<close> is
  returned at once; otherwise \<^verbatim>\<open>generate(data, data_size, m_poisson.dis)\<close>, on
  \<^verbatim>\<open>unsigned int\<close> elements of four bytes.
\<close>

definition generate_poisson ::
  "'e platform \<Rightarrow> (real \<Rightarrow> rocrand_status + u32 distribution) \<Rightarrow> launch \<Rightarrow> launch \<Rightarrow> u64 \<Rightarrow> u64
     \<Rightarrow> real \<Rightarrow> 'e rocrand_mrg32k3a \<Rightarrow> u32 list
     \<Rightarrow> (rocrand_status \<times> 'e rocrand_mrg32k3a \<times> u32 list) option" where
  "generate_poisson P build l_init l_gen uintptr data_size lambda h buf =
     (case set_lambda build lambda (m_poisson h) of
        Inl status \<Rightarrow> Some (status, h, buf)
      | Inr pm \<Rightarrow>
          generate P (dis pm) 4 l_init l_gen uintptr data_size (h\<lparr>m_poisson := pm\<rparr>) buf)"

subsection \<open>An instance to run the kernel on\<close>

text \<open>
  The kernel is generic in the engine and in the functor. To run it on concrete inputs:
  an engine whose state is a counter and whose draw is the counter, seeded with 16 times
  the thread's \<^verbatim>\<open>engine_id\<close>; a functor of widths 2 and 2, as the normal functors have,
  that returns its two inputs; a launch of one block of two threads; and a handle that
  has not been initialised.
\<close>

definition counter_call :: "u32 \<Rightarrow> u32 \<times> u32" where
  "counter_call e = (e, e + 1)"

definition counter_ctor :: "u64 \<Rightarrow> u32 \<Rightarrow> u64 \<Rightarrow> u32" where
  "counter_ctor seed engine_id offset = 16 * engine_id"

definition pair_distribution :: "u32 distribution" where
  "pair_distribution = \<lparr>input_width = 2, output_width = 2, transform = id\<rparr>"

definition small_platform :: "u32 platform" where
  "small_platform =
     \<lparr>s_threads = 2, s_blocks = 1, DEFAULT_SEED = 12345,
      engine_ctor = counter_ctor, engine_call = counter_call\<rparr>"

definition small_poisson :: poisson_distribution_manager where
  "small_poisson = \<lparr>pm_lambda = 1, dis = \<lparr>input_width = 1, output_width = 1, transform = id\<rparr>\<rparr>"

definition small_handle :: "u32 rocrand_mrg32k3a" where
  "small_handle =
     \<lparr>m_seed = 12345, m_offset = 0, m_engines_initialized = False, m_engines = [0, 0],
      m_poisson = small_poisson\<rparr>"

subsection \<open>An instance to run the \<^verbatim>\<open>__half\<close> functors on\<close>

text \<open>
  A miniature of the two floating-point formats. \<^verbatim>\<open>float\<close> is the natural numbers, with
  their sum and product; \<^verbatim>\<open>__half\<close> is the natural numbers of at most two significant
  bits (0, 1, 2, 3, 4, 6, 8, 12, 16, ...), and \<^verbatim>\<open>__float2half\<close> rounds towards zero to the
  next of them. The exponential is \<open>2 ^ x\<close> in both formats, rounded in \<^verbatim>\<open>__half\<close>. The
  raw draw is taken as it is, and the pair is its two 16-bit halves.
\<close>

fun round_half :: "nat \<Rightarrow> nat" where
  "round_half x = (if x < 4 then x else 2 * round_half (x div 2))"

definition small_half_ops :: "(nat, nat) half_ops" where
  "small_half_ops =
     \<lparr>uint_norm = id, uniform_distribution_half = unat, mrg_box_muller_half = Pair,
      hadd = (\<lambda>a b. round_half (a + b)), hmul = (\<lambda>a b. round_half (a * b)),
      hexp = (\<lambda>a. round_half (2 ^ a)),
      half2float = id, float2half = round_half,
      float_add = (+), float_mul = (*), expf = (\<lambda>x. 2 ^ x)\<rparr>"

section \<open>Properties\<close>

subsection \<open>Casts between the two word sizes\<close>

lemma unat_ucast_up: "unat (ucast (w::u32) :: u64) = unat w"
proof -
  have "unat w < 2 ^ 32" using unsigned_less [of w] by simp
  then have "unat w < 2 ^ 64" by simp
  then show ?thesis by (simp add: unsigned_ucast_eq take_bit_nat_eq_self)
qed

lemma unat_ucast_down: "unat (w::u64) < 2 ^ 32 \<Longrightarrow> unat (ucast w :: u32) = unat w"
  by (simp add: unsigned_ucast_eq take_bit_nat_eq_self)

lemma unat_min: "unat (min (a::u64) b) = min (unat a) (unat b)"
  by (simp add: min_def word_le_nat_alt)

subsection \<open>The three regions\<close>

lemma unat_misalignment:
  assumes "ow \<noteq> 0"
  shows "unat (misalignment ow sz uintptr) =
           (unat ow - (unat uintptr div unat sz) mod unat ow) mod unat ow"
proof -
  let ?w = "ucast ow :: u64"
  let ?r = "(uintptr div sz) mod ?w"
  have pos: "0 < unat ow" using assms by (simp add: unat_gt_0)
  have r: "unat ?r = (unat uintptr div unat sz) mod unat ow"
    by (simp add: unat_mod unat_div unat_ucast_up)
  then have "unat ?r < unat ?w" using pos by (simp add: unat_ucast_up)
  then have "?r \<le> ?w" by (simp add: word_le_nat_alt)
  then have "unat (?w - ?r) = unat ?w - unat ?r" by (rule unat_sub)
  then have a: "unat (?w - ?r) = unat ow - (unat uintptr div unat sz) mod unat ow"
    by (simp only: r unat_ucast_up)
  show ?thesis
    unfolding misalignment_def by (simp only: unat_mod [of "?w - ?r"] a unat_ucast_up)
qed

lemma misalignment_less:
  assumes "ow \<noteq> 0"
  shows "unat (misalignment ow sz uintptr) < unat ow"
  using assms by (simp add: unat_misalignment unat_gt_0)

lemma unat_head_size:
  assumes "unat mis < unat (ow::u32)"
  shows "unat (head_size n mis) = min (unat n) (unat mis)"
proof -
  have "unat ow < 2 ^ 32" using unsigned_less [of ow] by simp
  with assms have "unat (min n mis) < 2 ^ 32" by (simp add: unat_min)
  then show ?thesis by (simp add: head_size_def unat_ucast_down unat_min)
qed

lemma head_size_le: 
  assumes "unat mis < unat (ow::u32)"
  shows "ucast (head_size n mis) \<le> n"
  using assms by (simp add: word_le_nat_alt unat_ucast_up unat_head_size [OF assms])

lemma unat_vec_n:
  assumes "unat mis < unat (ow::u32)"
  shows "unat (vec_n ow n (head_size n mis)) = (unat n - unat (head_size n mis)) div unat ow"
  using unat_sub [OF head_size_le [OF assms, of n]]
  by (simp add: vec_n_def unat_div unat_ucast_up)

lemma unat_tail_size:
  assumes "unat mis < unat (ow::u32)"
  shows "unat (tail_size ow n (head_size n mis)) = (unat n - unat (head_size n mis)) mod unat ow"
proof -
  let ?d = "n - ucast (head_size n mis)"
  have d: "unat ?d = unat n - unat (head_size n mis)"
    using unat_sub [OF head_size_le [OF assms, of n]] by (simp add: unat_ucast_up)
  have m: "unat (?d mod ucast ow) = (unat n - unat (head_size n mis)) mod unat ow"
    by (simp add: unat_mod d unat_ucast_up)
  have "unat ow < 2 ^ 32" using unsigned_less [of ow] by simp
  moreover have "(unat n - unat (head_size n mis)) mod unat ow < unat ow"
    using assms by simp
  ultimately have "unat (?d mod ucast ow) < 2 ^ 32" using m by simp
  then show ?thesis by (simp add: tail_size_def unat_ucast_down m)
qed

text \<open>
  C3. For every buffer address, every length \<open>n\<close> and every output width of at least 1,
  the kernel's split is the one of the specification: the head is the misalignment of the
  buffer relative to the output width, clamped to \<open>n\<close>; the tail is
  \<open>(n - head_size) mod output_width\<close>; \<open>vec_n\<close> is \<open>(n - head_size) div output_width\<close>; and
  the three regions add up to \<open>n\<close>. None of the machine operations wraps or truncates.
\<close>

theorem split_formulas:
  assumes "ow \<noteq> 0"
  shows "let mis = misalignment ow sz uintptr; hs = head_size n mis;
             ts = tail_size ow n hs; vn = vec_n ow n hs
         in unat mis = (unat ow - (unat uintptr div unat sz) mod unat ow) mod unat ow
          \<and> unat hs = min (unat n) (unat mis)
          \<and> unat ts = (unat n - unat hs) mod unat ow
          \<and> unat vn = (unat n - unat hs) div unat ow
          \<and> unat hs + unat vn * unat ow + unat ts = unat n"
proof -
  let ?mis = "misalignment ow sz uintptr"
  let ?hs = "head_size n ?mis"
  have lt: "unat ?mis < unat ow" by (rule misalignment_less [OF assms])
  have m: "unat ?mis = (unat ow - (unat uintptr div unat sz) mod unat ow) mod unat ow"
    by (rule unat_misalignment [OF assms])
  have hs: "unat ?hs = min (unat n) (unat ?mis)" by (rule unat_head_size [OF lt])
  have ts: "unat (tail_size ow n ?hs) = (unat n - unat ?hs) mod unat ow"
    by (rule unat_tail_size [OF lt])
  have vn: "unat (vec_n ow n ?hs) = (unat n - unat ?hs) div unat ow"
    by (rule unat_vec_n [OF lt])
  have "unat ?hs \<le> unat n" using hs by simp
  then have sum: "unat ?hs + unat (vec_n ow n ?hs) * unat ow + unat (tail_size ow n ?hs) = unat n"
    by (simp add: ts vn)
  show ?thesis unfolding Let_def using m hs ts vn sum by blast
qed


theorem split_formulas_witness:
  "(2::u32) \<noteq> 0 \<and>
   unat (misalignment 2 4 4) = 1 \<and>
   unat (head_size 4 (misalignment 2 4 4)) = 1 \<and>
   unat (tail_size 2 4 (head_size 4 (misalignment 2 4 4))) = 1 \<and>
   unat (vec_n 2 4 (head_size 4 (misalignment 2 4 4))) = 1"
  using split_formulas [of 2 4 4 4] by (simp add: Let_def)

subsection \<open>The seed\<close>

text \<open>
  C6. The constructor and \<^verbatim>\<open>set_seed\<close> replace a seed of 0 by
  \<^verbatim>\<open>ROCRAND_MRG32K3A_DEFAULT_SEED\<close> and store any other seed unchanged; the stored seed is
  never zero afterwards. The constant is declared outside the sources at hand; the
  specification has it non-zero, which is the hypothesis.
\<close>

theorem stored_seed_nonzero:
  assumes "DEFAULT_SEED P \<noteq> 0"
  shows "(\<exists>h. new_rocrand_mrg32k3a P (Some es) pm seed offset = Inr h
            \<and> m_seed h = (if seed = 0 then DEFAULT_SEED P else seed) \<and> m_seed h \<noteq> 0)
       \<and> m_seed (set_seed P seed h') = (if seed = 0 then DEFAULT_SEED P else seed)
       \<and> m_seed (set_seed P seed h') \<noteq> 0"
  using assms by (simp add: new_rocrand_mrg32k3a_def set_seed_def Let_def)

theorem stored_seed_nonzero_witness:
  "DEFAULT_SEED small_platform \<noteq> 0
   \<and> (\<exists>h. new_rocrand_mrg32k3a small_platform (Some [0, 0]) small_poisson 0 0 = Inr h \<and> m_seed h = 12345)
   \<and> m_seed (set_seed small_platform 0 small_handle) = 12345
   \<and> m_seed (set_seed small_platform 7 small_handle) = 7"
proof -
  have d: "DEFAULT_SEED small_platform \<noteq> 0" by (simp add: small_platform_def)
  have v: "DEFAULT_SEED small_platform = 12345" by (simp add: small_platform_def)
  show ?thesis
    using d stored_seed_nonzero [OF d, of "[0, 0]" small_poisson 0 0 small_handle]
      stored_seed_nonzero [OF d, of "[0, 0]" small_poisson 7 0 small_handle]
    by (auto simp: v)
qed

subsection \<open>Poisson: the parameter is checked first\<close>

text \<open>
  C7. For a lambda that is not positive, \<^verbatim>\<open>generate_poisson\<close> returns the invalid-parameter
  status; nothing is launched, and the handle (with its engines) and the buffer are as
  before.
\<close>

theorem generate_poisson_rejects:
  assumes "lambda \<le> 0"
  shows "generate_poisson P build init_ok gen_ok uintptr data_size lambda h buf
           = Some (INVALID_PARAMETER, h, buf)"
  using assms by (simp add: generate_poisson_def set_lambda_def)

theorem generate_poisson_rejects_witness:
  "(0::real) \<le> 0
   \<and> generate_poisson small_platform (\<lambda>l. Inl ROCRAND_STATUS_ALLOCATION_FAILED) Launched Launched 4 4 0 small_handle [9, 9, 9, 9]
       = Some (INVALID_PARAMETER, small_handle, [9, 9, 9, 9])"
  using generate_poisson_rejects [of 0 small_platform "\<lambda>l. Inl ROCRAND_STATUS_ALLOCATION_FAILED" Launched Launched 4 4 small_handle "[9, 9, 9, 9]"]
  by simp

subsection \<open>Log-normal is the exponential of normal\<close>

text \<open>
  C9, as stated, fails for \<^verbatim>\<open>__half\<close> where the platform has no half arithmetic. There
  both functors compute \<open>mean + stddev * v\<close> in \<^verbatim>\<open>float\<close>; the normal functor rounds that
  sum to \<^verbatim>\<open>__half\<close>, and the log-normal functor rounds its \<^verbatim>\<open>expf\<close>, which is not a
  function of the rounded sum. In the miniature formats, with mean 2, standard deviation
  3 and the pair (2, 3), the sums are 8 and 11: the normal functor returns 8 twice, the
  log-normal functor returns \<open>2 ^ 8\<close> and \<open>2 ^ 11\<close>.
\<close>

theorem log_normal_half_counterexample:
  "transform (mrg_normal_distribution_half small_half_ops False 2 3) [196610] = [8, 8]
   \<and> transform (mrg_log_normal_distribution_half small_half_ops False 2 3) [196610]
       = [256, 2048]
   \<and> map (hexp small_half_ops)
         (transform (mrg_normal_distribution_half small_half_ops False 2 3) [196610])
       = [256, 256]
   \<and> transform (mrg_log_normal_distribution_half small_half_ops False 2 3) [196610]
       \<noteq> map (hexp small_half_ops)
            (transform (mrg_normal_distribution_half small_half_ops False 2 3) [196610])"
proof -
  have p: "half_pair small_half_ops [196610] = (2, 3)"
    by (simp add: half_pair_def small_half_ops_def drop_bit_eq_div)
  have ops: "half2float small_half_ops = id" "float2half small_half_ops = round_half"
    "float_add small_half_ops = (+)" "float_mul small_half_ops = (*)"
    "expf small_half_ops = (\<lambda>x. 2 ^ x)" "hexp small_half_ops = (\<lambda>a. round_half (2 ^ a))"
    by (simp_all add: small_half_ops_def)
  have r: "round_half 8 = 8" "round_half 11 = 8" "round_half 256 = 256"
    "round_half 2048 = 2048"
    by simp_all
  have n: "transform (mrg_normal_distribution_half small_half_ops False 2 3) [196610] = [8, 8]"
    by (simp add: mrg_normal_distribution_half_def p Let_def ops r del: round_half.simps)
  have l: "transform (mrg_log_normal_distribution_half small_half_ops False 2 3) [196610]
             = [256, 2048]"
    by (simp add: mrg_log_normal_distribution_half_def p Let_def ops r del: round_half.simps)
  have e: "map (hexp small_half_ops) [8, 8] = [256, 256]"
    by (simp add: ops r del: round_half.simps)
  show ?thesis unfolding n l e by simp
qed

text \<open>
  C9, amended. For the same mean, standard deviation and input, the log-normal functor
  returns the exponential of what the normal functor returns, component by component, on
  the same Box-Muller pair, with the same widths: for \<^verbatim>\<open>float\<close> and \<^verbatim>\<open>double\<close>, and for
  \<^verbatim>\<open>__half\<close> with native half arithmetic. Where \<^verbatim>\<open>__half\<close> goes through \<^verbatim>\<open>float\<close>, there is
  one pair of \<^verbatim>\<open>float\<close> values, \<open>mean + stddev * v\<close> on the same Box-Muller pair, of which
  the normal functor returns the conversion to \<^verbatim>\<open>__half\<close> and the log-normal functor the
  conversion of the \<^verbatim>\<open>expf\<close>; the log-normal output is the half exponential of the normal
  output there whenever, on these two values, converting the \<^verbatim>\<open>expf\<close> is the same as
  taking the half exponential of the conversion.
\<close>

theorem log_normal_is_exp_of_normal:
  "transform (mrg_log_normal_distribution F mean stddev) input
     = map (fexp F) (transform (mrg_normal_distribution F mean stddev) input)
   \<and> input_width (mrg_log_normal_distribution F mean stddev)
     = input_width (mrg_normal_distribution F mean stddev)
   \<and> output_width (mrg_log_normal_distribution F mean stddev)
     = output_width (mrg_normal_distribution F mean stddev)
   \<and> transform (mrg_log_normal_distribution_half H True hmean hstddev) input
     = map (hexp H) (transform (mrg_normal_distribution_half H True hmean hstddev) input)
   \<and> input_width (mrg_log_normal_distribution_half H native hmean hstddev)
     = input_width (mrg_normal_distribution_half H native hmean hstddev)
   \<and> output_width (mrg_log_normal_distribution_half H native hmean hstddev)
     = output_width (mrg_normal_distribution_half H native hmean hstddev)
   \<and> (let ys = map (\<lambda>v. float_add H (half2float H hmean)
                           (float_mul H (half2float H hstddev) (half2float H v)))
                  [fst (half_pair H input), snd (half_pair H input)]
      in transform (mrg_normal_distribution_half H False hmean hstddev) input
           = map (float2half H) ys
       \<and> transform (mrg_log_normal_distribution_half H False hmean hstddev) input
           = map (float2half H) (map (expf H) ys)
       \<and> ((\<forall>y\<in>set ys. float2half H (expf H y) = hexp H (float2half H y)) \<longrightarrow>
            transform (mrg_log_normal_distribution_half H False hmean hstddev) input
              = map (hexp H)
                  (transform (mrg_normal_distribution_half H False hmean hstddev) input)))"
  by (simp add: mrg_log_normal_distribution_def mrg_normal_distribution_def
        mrg_log_normal_distribution_half_def mrg_normal_distribution_half_def Let_def)

theorem log_normal_is_exp_of_normal_witness:
  "half_pair small_half_ops [131074] = (2, 2)
   \<and> float_add small_half_ops (half2float small_half_ops 2)
       (float_mul small_half_ops (half2float small_half_ops 3) (half2float small_half_ops 2))
     = 8
   \<and> float2half small_half_ops (expf small_half_ops 8)
     = hexp small_half_ops (float2half small_half_ops 8)
   \<and> transform (mrg_normal_distribution_half small_half_ops False 2 3) [131074] = [8, 8]
   \<and> transform (mrg_log_normal_distribution_half small_half_ops False 2 3) [131074]
     = [256, 256]
   \<and> transform (mrg_log_normal_distribution_half small_half_ops False 2 3) [131074]
     = map (hexp small_half_ops)
         (transform (mrg_normal_distribution_half small_half_ops False 2 3) [131074])"
proof -
  have p: "half_pair small_half_ops [131074] = (2, 2)"
    by (simp add: half_pair_def small_half_ops_def drop_bit_eq_div)
  have ops: "half2float small_half_ops = id" "float2half small_half_ops = round_half"
    "float_add small_half_ops = (+)" "float_mul small_half_ops = (*)"
    "expf small_half_ops = (\<lambda>x. 2 ^ x)" "hexp small_half_ops = (\<lambda>a. round_half (2 ^ a))"
    by (simp_all add: small_half_ops_def)
  have r: "round_half 8 = 8" "round_half 256 = 256" by simp_all
  have y: "float_add small_half_ops (half2float small_half_ops 2)
             (float_mul small_half_ops (half2float small_half_ops 3)
                (half2float small_half_ops 2)) = 8"
    by (simp add: ops)
  have c: "float2half small_half_ops (expf small_half_ops 8)
             = hexp small_half_ops (float2half small_half_ops 8)"
    by (simp add: ops r del: round_half.simps)
  have ys: "map (\<lambda>v. float_add small_half_ops (half2float small_half_ops 2)
                     (float_mul small_half_ops (half2float small_half_ops 3)
                        (half2float small_half_ops v)))
              [fst (half_pair small_half_ops [131074]), snd (half_pair small_half_ops [131074])]
            = [8, 8]"
    unfolding p by (simp add: ops)
  have h: "\<forall>y\<in>set [8, 8 :: nat].
             float2half small_half_ops (expf small_half_ops y)
               = hexp small_half_ops (float2half small_half_ops y)"
    using c by simp
  note t = log_normal_is_exp_of_normal [where H = small_half_ops and hmean = 2
      and hstddev = 3 and input = "[131074]", THEN conjunct2, THEN conjunct2,
      THEN conjunct2, THEN conjunct2, THEN conjunct2, THEN conjunct2, unfolded Let_def ys]
  have n: "transform (mrg_normal_distribution_half small_half_ops False 2 3) [131074] = [8, 8]"
    using t by (simp add: ops r del: round_half.simps)
  have l: "transform (mrg_log_normal_distribution_half small_half_ops False 2 3) [131074]
             = [256, 256]"
    using t by (simp add: ops r del: round_half.simps)
  have e: "transform (mrg_log_normal_distribution_half small_half_ops False 2 3) [131074]
             = map (hexp small_half_ops)
                 (transform (mrg_normal_distribution_half small_half_ops False 2 3) [131074])"
    using t h by blast
  show ?thesis using p y c n l e by (intro conjI)
qed

subsection \<open>Nothing to generate\<close>

lemma run_threads_fixed:
  assumes "\<And>engine_id. f engine_id k = Some k"
  shows "run_threads f ids k = Some k"
  using assms by (induction ids) simp_all

lemma head_size_0: "head_size 0 mis = 0"
  by (simp add: head_size_def)

lemma tail_size_0: "tail_size ow 0 0 = 0"
  by (simp add: tail_size_def)

lemma vec_n_0: "vec_n ow 0 0 = 0"
  by (simp add: vec_n_def)

lemma generate_thread_0:
  "generate_thread next D sz uintptr 0 stride engine_id e
     = Some \<lparr>engine = e, stores = [], draws = 0\<rparr>"
  by (simp add: generate_thread_def head_size_0 tail_size_0 vec_n_0 vec_loop.simps
        save_head_tail_def Let_def)

lemma kernel_thread_0: "kernel_thread next D sz uintptr 0 stride engine_id k = Some k"
  by (simp add: kernel_thread_def generate_thread_0 store_all_def)

text \<open>
  C10. For \<open>n = 0\<close>, whatever the address and the functor: the head, the tail and \<open>vec_n\<close>
  are 0; a thread calls neither the engine nor the functor and stores nothing; and the
  kernel gives back the engines and the buffer as they were.
\<close>

theorem generate_nothing:
  "head_size 0 (misalignment (output_width D) sz uintptr) = 0
   \<and> tail_size (output_width D) 0 (head_size 0 (misalignment (output_width D) sz uintptr)) = 0
   \<and> vec_n (output_width D) 0 (head_size 0 (misalignment (output_width D) sz uintptr)) = 0
   \<and> generate_thread next D sz uintptr 0 stride engine_id e
       = Some \<lparr>engine = e, stores = [], draws = 0\<rparr>
   \<and> generate_kernel next D sz gridDim blockDim uintptr 0 k = Some k"
  by (simp add: head_size_0 tail_size_0 vec_n_0 generate_thread_0 generate_kernel_def
        run_threads_fixed [OF kernel_thread_0])

subsection \<open>The initialisation flag\<close>




subsection \<open>Draws and stores of one pass of the loop\<close>

lemma fill_input_state:
  "stores (snd (fill_input next k st)) = stores st
   \<and> draws (snd (fill_input next k st)) = draws st + k
   \<and> engine (snd (fill_input next k st)) = (advance next ^^ k) (engine st)"
proof (induction k arbitrary: st)
  case 0
  show ?case by simp
next
  case (Suc k)
  let ?st = "st\<lparr>engine := snd (next (engine st)), draws := Suc (draws st)\<rparr>"
  have "snd (fill_input next (Suc k) st) = snd (fill_input next k ?st)"
    by (simp add: case_prod_beta)
  moreover have "(advance next ^^ k) (engine ?st) = (advance next ^^ Suc k) (engine st)"
    by (simp add: funpow_swap1 advance_def)
  ultimately show ?case using Suc.IH [of ?st] by simp
qed

lemma generate_output_state:
  "stores (snd (generate_output next D st)) = stores st
   \<and> draws (snd (generate_output next D st)) = draws st + unat (input_width D)
   \<and> engine (snd (generate_output next D st))
       = (advance next ^^ unat (input_width D)) (engine st)"
  using fill_input_state [of "next" "unat (input_width D)" st]
  by (simp add: generate_output_def case_prod_beta)

lemma vec_body_state:
  "map fst (stores (vec_body next D mis index st))
     = map fst (stores st) @
       map (\<lambda>j. unat mis + unat index * unat (output_width D) + j) [0..<unat (output_width D)]
   \<and> draws (vec_body next D mis index st) = draws st + unat (input_width D)
   \<and> engine (vec_body next D mis index st)
       = (advance next ^^ unat (input_width D)) (engine st)"
  using generate_output_state [of "next" D st]
  by (simp add: vec_body_def vec_store_def case_prod_beta comp_def)

lemma vec_loop_rule:
  assumes b: "unat vn + unat stride \<le> 2 ^ 64" and s: "stride \<noteq> 0"
  assumes base: "\<And>index st. \<not> index < vn \<Longrightarrow> Q index st index st"
  assumes step: "\<And>index st idx' st'. index < vn
      \<Longrightarrow> unat (index + ucast stride) = unat index + unat stride
      \<Longrightarrow> Q (index + ucast stride) (vec_body next D mis index st) idx' st'
      \<Longrightarrow> Q index st idx' st'"
  shows "\<exists>idx' st'. vec_loop next D stride mis vn index st = Some (idx', st') \<and> Q index st idx' st'"
proof (induction "unat vn - unat index" arbitrary: index st rule: less_induct)
  case less
  show ?case
  proof (cases "index < vn")
    case False
    then show ?thesis using base [OF False, of st] by (subst vec_loop.simps) simp
  next
    case True
    let ?i = "index + ucast stride"
    have lt: "unat index < unat vn" using True by (simp add: word_less_nat_alt)
    have pos: "0 < unat stride" using s by (simp add: unat_gt_0)
    have "unat index + unat (ucast stride :: u64) < 2 ^ 64"
      using lt b by (simp add: unat_ucast_up)
    then have "unat index + unat (ucast stride :: u64) < 2 ^ LENGTH(64)" by simp
    then have u: "unat ?i = unat index + unat stride"
      by (simp only: unat_add_lem [THEN iffD1] unat_ucast_up)
    then have "unat vn - unat ?i < unat vn - unat index" using lt pos by simp
    from less [OF this, of "vec_body next D mis index st"]
    obtain idx' st' where
      r: "vec_loop next D stride mis vn ?i (vec_body next D mis index st) = Some (idx', st')"
      and q: "Q ?i (vec_body next D mis index st) idx' st'" by blast
    have "vec_loop next D stride mis vn index st = Some (idx', st')"
      using True r by (subst vec_loop.simps) simp
    then show ?thesis using step [OF True u q] by blast
  qed
qed

lemma UN_lessThan_Suc_shift: "(\<Union>j<Suc k. F j) = F 0 \<union> (\<Union>j<k. F (Suc j))"
  by (simp add: lessThan_Suc_eq_insert_0)

lemma vec_loop_spec:
  assumes b: "unat vn + unat stride \<le> 2 ^ 64" and s: "stride \<noteq> 0"
  shows "\<exists>idx' st'. vec_loop next D stride mis vn index st = Some (idx', st') \<and> (\<exists>k.
      unat idx' = unat index + k * unat stride
      \<and> unat vn \<le> unat idx'
      \<and> (\<forall>j<k. unat index + j * unat stride < unat vn)
      \<and> draws st' = draws st + k * unat (input_width D)
      \<and> engine st' = (advance next ^^ (k * unat (input_width D))) (engine st)
      \<and> length (stores st') = length (stores st) + k * unat (output_width D)
      \<and> fst ` set (stores st') = fst ` set (stores st) \<union>
            (\<Union>j<k. {unat mis + (unat index + j * unat stride) * unat (output_width D) ..<
                      unat mis + (unat index + j * unat stride) * unat (output_width D)
                        + unat (output_width D)}))"
proof -
  let ?s = "unat stride" and ?ow = "unat (output_width D)" and ?iw = "unat (input_width D)"
  let ?Q = "\<lambda>index st idx' st'. \<exists>k. unat idx' = unat index + k * ?s
      \<and> unat vn \<le> unat idx'
      \<and> (\<forall>j<k. unat index + j * ?s < unat vn)
      \<and> draws st' = draws st + k * ?iw
      \<and> engine st' = (advance next ^^ (k * ?iw)) (engine st)
      \<and> length (stores st') = length (stores st) + k * ?ow
      \<and> fst ` set (stores st') = fst ` set (stores st) \<union>
            (\<Union>j<k. {unat mis + (unat index + j * ?s) * ?ow ..<
                      unat mis + (unat index + j * ?s) * ?ow + ?ow})"
  show ?thesis
  proof (rule vec_loop_rule [OF b s, where Q = ?Q])
    fix index :: u64 and st :: "('a, 'b) thread_state"
    assume "\<not> index < vn"
    then have "unat vn \<le> unat index" by (simp add: word_less_nat_alt)
    then show "?Q index st index st" by (intro exI [of _ 0]) simp
  next
    fix index idx' :: u64 and st st' :: "('a, 'b) thread_state"
    let ?b = "vec_body next D mis index st"
    assume lt: "index < vn"
      and u: "unat (index + ucast stride) = unat index + unat stride"
      and q: "?Q (index + ucast stride) ?b idx' st'"
    from q obtain k where
      i: "unat idx' = unat (index + ucast stride) + k * ?s" and
      ge: "unat vn \<le> unat idx'" and
      al: "\<forall>j<k. unat (index + ucast stride) + j * ?s < unat vn" and
      d: "draws st' = draws ?b + k * ?iw" and
      e: "engine st' = (advance next ^^ (k * ?iw)) (engine ?b)" and
      l: "length (stores st') = length (stores ?b) + k * ?ow" and
      w: "fst ` set (stores st') = fst ` set (stores ?b) \<union>
            (\<Union>j<k. {unat mis + (unat (index + ucast stride) + j * ?s) * ?ow ..<
                      unat mis + (unat (index + ucast stride) + j * ?s) * ?ow + ?ow})"
      by blast
    note vb = vec_body_state [of "next" D mis index st]
    have i': "unat idx' = unat index + Suc k * ?s" using i u by simp
    have al': "\<forall>j<Suc k. unat index + j * ?s < unat vn"
    proof (intro allI impI)
      fix j assume "j < Suc k"
      show "unat index + j * ?s < unat vn"
      proof (cases j)
        case 0
        then show ?thesis using lt by (simp add: word_less_nat_alt)
      next
        case (Suc j')
        then have "j' < k" using \<open>j < Suc k\<close> by simp
        then have "unat (index + ucast stride) + j' * ?s < unat vn" using al by blast
        then show ?thesis using u Suc by simp
      qed
    qed
    have d': "draws st' = draws st + Suc k * ?iw" using d vb by simp
    have "Suc k * ?iw = k * ?iw + ?iw" by simp
    then have "(advance next ^^ (Suc k * ?iw)) (engine st)
                 = (advance next ^^ (k * ?iw)) ((advance next ^^ ?iw) (engine st))"
      by (simp only: funpow_add comp_apply)
    then have e': "engine st' = (advance next ^^ (Suc k * ?iw)) (engine st)"
      using e vb by simp
    have lb: "length (stores ?b) = length (stores st) + ?ow"
    proof -
      have "length (map fst (stores ?b)) = length (map fst (stores st)) + ?ow"
        using vb by (simp only: length_append length_map length_upt)
      then show ?thesis by simp
    qed
    have l': "length (stores st') = length (stores st) + Suc k * ?ow" using l lb by simp
    have sb: "fst ` set (stores ?b) = fst ` set (stores st) \<union>
                {unat mis + unat index * ?ow ..< unat mis + unat index * ?ow + ?ow}"
    proof -
      have "set (map fst (stores ?b)) = set (map fst (stores st)) \<union>
              (\<lambda>j. unat mis + unat index * ?ow + j) ` {0..<?ow}"
        using vb by (simp only: set_append set_map set_upt)
      moreover have "(\<lambda>j. unat mis + unat index * ?ow + j) ` {0..<?ow}
                       = {unat mis + unat index * ?ow ..< unat mis + unat index * ?ow + ?ow}"
        by (simp add: image_add_atLeastLessThan' add.commute)
      ultimately show ?thesis by simp
    qed
    let ?G = "\<lambda>j. {unat mis + (unat index + j * ?s) * ?ow ..<
                   unat mis + (unat index + j * ?s) * ?ow + ?ow}"
    have sh: "\<And>j. unat (index + ucast stride) + j * ?s = unat index + Suc j * ?s"
      using u by simp
    have w1: "fst ` set (stores st') = (fst ` set (stores st) \<union> ?G 0) \<union> (\<Union>j<k. ?G (Suc j))"
      using w sb by (simp only: sh mult_0 add_0_right)
    have "(\<Union>j<Suc k. ?G j) = ?G 0 \<union> (\<Union>j<k. ?G (Suc j))"
      by (rule UN_lessThan_Suc_shift)
    then have w': "fst ` set (stores st') = fst ` set (stores st) \<union> (\<Union>j<Suc k. ?G j)"
      using w1 by (simp only: Un_assoc)
    show "?Q index st idx' st'"
    proof (rule exI [of _ "Suc k"])
      from i' ge al' d' e' l' w'
      show "unat idx' = unat index + Suc k * ?s
        \<and> unat vn \<le> unat idx'
        \<and> (\<forall>j<Suc k. unat index + j * ?s < unat vn)
        \<and> draws st' = draws st + Suc k * ?iw
        \<and> engine st' = (advance next ^^ (Suc k * ?iw)) (engine st)
        \<and> length (stores st') = length (stores st) + Suc k * ?ow
        \<and> fst ` set (stores st') = fst ` set (stores st) \<union> (\<Union>j<Suc k. ?G j)"
        by (intro conjI)
    qed
  qed
qed

subsection \<open>The head and the tail\<close>

lemma filter_less_upt: "h \<le> w \<Longrightarrow> filter (\<lambda>j. j < h) [0..<w] = [0..<h]"
proof -
  assume "h \<le> w"
  then have "[0..<w] = [0..<h] @ [h..<w]" by (metis le_add_diff_inverse upt_add_eq_append zero_le)
  moreover have "filter (\<lambda>j. j < h) [0..<h] = [0..<h]" by (simp add: filter_id_conv)
  moreover have "filter (\<lambda>j. j < h) [h..<w] = []" by (simp add: filter_empty_conv)
  ultimately show ?thesis by simp
qed

lemma head_store_offsets:
  assumes "unat hs \<le> unat ow"
  shows "map fst (head_store ow hs output) = [0..<unat hs]"
  by (simp add: head_store_def filter_less_upt [OF assms] comp_def)

lemma unat_tail_index:
  fixes n :: u64 and ts :: u32
  assumes "unat ts \<le> unat n" and "j < unat ts"
  shows "unat (n - ucast ts + word_of_nat j) = unat n - unat ts + j"
proof -
  have "ucast ts \<le> n" using assms(1) by (simp add: word_le_nat_alt unat_ucast_up)
  then have a: "unat (n - ucast ts) = unat n - unat ts" by (simp add: unat_sub unat_ucast_up)
  have "unat n < 2 ^ 64" using unsigned_less [of n] by simp
  then have lt: "unat n - unat ts + j < 2 ^ 64" using assms by simp
  then have "j < 2 ^ 64" by simp
  then have c: "unat (word_of_nat j :: u64) = j" by (simp add: unat_of_nat)
  have "unat (n - ucast ts) + unat (word_of_nat j :: u64) < 2 ^ LENGTH(64)"
    using lt a c by simp
  then show ?thesis using a c by (simp only: unat_add_lem [THEN iffD1])
qed

lemma tail_store_offsets:
  assumes "unat ts \<le> unat ow" and "unat ts \<le> unat n"
  shows "map fst (tail_store ow n ts output) = [unat n - unat ts ..< unat n]"
proof -
  have "map fst (tail_store ow n ts output)
          = map (\<lambda>j. unat (n - ucast ts + word_of_nat j)) [0..<unat ts]"
    by (simp add: tail_store_def filter_less_upt [OF assms(1)] comp_def)
  also have "\<dots> = map (\<lambda>j. j + (unat n - unat ts)) [0..<unat ts]"
    by (rule map_cong) (simp_all add: unat_tail_index [OF assms(2)])
  also have "\<dots> = [unat n - unat ts ..< unat ts + (unat n - unat ts)]"
    by (rule map_add_upt)
  finally show ?thesis using assms(2) by simp
qed


lemma save_head_tail_state:
  fixes D :: "'a distribution" and st :: "('e, 'a) thread_state"
    and "next" :: "'e \<Rightarrow> u32 \<times> 'e" and index vn n :: u64 and hs ts :: u32
  assumes h: "unat hs \<le> unat (output_width D)" and t: "unat ts \<le> unat (output_width D)"
    and tn: "unat ts \<le> unat n"
  defines "st' \<equiv> save_head_tail next D n hs ts vn index st"
  defines "c \<equiv> (if 1 < output_width D \<and> index = vn
                  then (if 0 < hs then 1 else 0) + (if 0 < ts then 1 else 0) else (0::nat))"
  shows "map fst (stores st') = map fst (stores st) @
           (if 1 < output_width D \<and> index = vn
            then [0..<unat hs] @ [unat n - unat ts ..< unat n] else [])
       \<and> draws st' = draws st + c * unat (input_width D)
       \<and> engine st' = (advance next ^^ (c * unat (input_width D))) (engine st)"
proof (cases "1 < output_width D \<and> index = vn")
  case False
  then have "st' = st" unfolding st'_def save_head_tail_def by (rule if_not_P)
  moreover have "c = 0" unfolding c_def using False by (rule if_not_P)
  moreover have "(if 1 < output_width D \<and> index = vn
                  then [0..<unat hs] @ [unat n - unat ts ..< unat n] else []) = []"
    using False by (rule if_not_P)
  ultimately show ?thesis by simp
next
  case True
  let ?iw = "unat (input_width D)"
  let ?g = "generate_output next D"
  let ?st1 = "if 0 < hs
    then (snd (?g st))\<lparr>stores := stores (snd (?g st)) @ head_store (output_width D) hs (fst (?g st))\<rparr>
    else st"
  let ?st2 = "if 0 < ts
    then (snd (?g ?st1))\<lparr>stores := stores (snd (?g ?st1)) @
            tail_store (output_width D) n ts (fst (?g ?st1))\<rparr>
    else ?st1"
  have eq: "st' = ?st2"
    using True by (simp add: st'_def save_head_tail_def Let_def case_prod_beta)
  have hs0: "\<not> 0 < hs \<Longrightarrow> unat hs = 0" by (simp add: word_greater_zero_iff)
  have ts0: "\<not> 0 < ts \<Longrightarrow> unat ts = 0" by (simp add: word_greater_zero_iff)
  have s1: "map fst (stores ?st1) = map fst (stores st) @ [0..<unat hs]
      \<and> draws ?st1 = draws st + (if 0 < hs then 1 else 0) * ?iw
      \<and> engine ?st1 = (advance next ^^ ((if 0 < hs then 1 else 0) * ?iw)) (engine st)"
    using generate_output_state [of "next" D st] hs0
    by (simp add: head_store_offsets [OF h])
  have s2: "map fst (stores ?st2) = map fst (stores ?st1) @ [unat n - unat ts ..< unat n]
      \<and> draws ?st2 = draws ?st1 + (if 0 < ts then 1 else 0) * ?iw
      \<and> engine ?st2 = (advance next ^^ ((if 0 < ts then 1 else 0) * ?iw)) (engine ?st1)"
    using generate_output_state [of "next" D ?st1] ts0
    by (simp add: tail_store_offsets [OF t tn])
  have c: "c = (if 0 < hs then 1 else 0) + (if 0 < ts then 1 else 0)"
    using True by (simp add: c_def)
  have f: "(advance next ^^ (c * ?iw)) (engine st)
             = (advance next ^^ ((if 0 < ts then 1 else 0) * ?iw))
                 ((advance next ^^ ((if 0 < hs then 1 else 0) * ?iw)) (engine st))"
  proof -
    have "c * ?iw = (if 0 < ts then 1 else 0) * ?iw + (if 0 < hs then 1 else 0) * ?iw"
      unfolding c by (simp only: add_mult_distrib add.commute)
    then show ?thesis by (simp only: funpow_add comp_apply)
  qed
  show ?thesis
    unfolding eq using True s1 s2 f by (simp add: c add_mult_distrib)
qed

subsection \<open>Which groups a thread writes\<close>

lemma lane_groups_image:
  fixes S E V k :: nat
  assumes S: "0 < S" and E: "E < S" and ge: "V \<le> E + k * S" and al: "\<forall>j<k. E + j * S < V"
  shows "(\<lambda>j. E + j * S) ` {..<k} = {g. g < V \<and> g mod S = E}"
proof (intro set_eqI iffI)
  fix g assume "g \<in> (\<lambda>j. E + j * S) ` {..<k}"
  then obtain j where j: "j < k" and g: "g = E + j * S" by auto
  then show "g \<in> {g. g < V \<and> g mod S = E}" using al E by simp
next
  fix g assume "g \<in> {g. g < V \<and> g mod S = E}"
  then have lt: "g < V" and m: "g mod S = E" by simp_all
  have g: "g = E + (g div S) * S" using m div_mult_mod_eq [of g S] by simp
  have "g div S < k"
  proof (rule ccontr)
    assume "\<not> g div S < k"
    then have "k * S \<le> (g div S) * S" by simp
    then have "E + k * S \<le> g" using g by linarith
    then show False using lt ge by simp
  qed
  then show "g \<in> (\<lambda>j. E + j * S) ` {..<k}" using g by blast
qed

lemma lane_groups_card:
  fixes S E V k :: nat
  assumes S: "0 < S" and E: "E < S" and ge: "V \<le> E + k * S" and al: "\<forall>j<k. E + j * S < V"
  shows "card {g. g < V \<and> g mod S = E} = k"
proof -
  have "inj_on (\<lambda>j. E + j * S) {..<k}" using S by (simp add: inj_on_def)
  then have "card ((\<lambda>j. E + j * S) ` {..<k}) = k" by (simp add: card_image)
  then show ?thesis by (simp only: lane_groups_image [OF assms])
qed

lemma lane_final_index:
  fixes S E V k :: nat
  assumes S: "0 < S" and E: "E < S" and ge: "V \<le> E + k * S" and al: "\<forall>j<k. E + j * S < V"
  shows "(E + k * S = V) = (V mod S = E)"
proof
  assume "E + k * S = V"
  then have "V mod S = (E + k * S) mod S" by simp
  then show "V mod S = E" using E by simp
next
  assume m: "V mod S = E"
  have v: "V = E + (V div S) * S" using m div_mult_mod_eq [of V S] by simp
  have "\<not> V div S < k"
  proof
    assume "V div S < k"
    then have "E + (V div S) * S < V" using al by blast
    then show False using v by simp
  qed
  then have "k * S \<le> (V div S) * S" by simp
  then have "E + k * S \<le> V" using v by linarith
  then show "E + k * S = V" using ge by simp
qed

lemma groups_partition:
  fixes S V :: nat
  assumes "0 < S"
  shows "(\<Union>E<S. {g. g < V \<and> g mod S = E}) = {..<V}"
  using assms by auto

lemma groups_card_sum:
  fixes S V :: nat
  assumes "0 < S"
  shows "(\<Sum>E<S. card {g. g < V \<and> g mod S = E}) = V"
proof -
  have "card (\<Union>E\<in>{..<S}. {g. g < V \<and> g mod S = E}) = (\<Sum>E\<in>{..<S}. card {g. g < V \<and> g mod S = E})"
    by (rule card_UN_disjoint) auto
  then show ?thesis using groups_partition [OF assms, of V] by simp
qed

lemma block_div:
  fixes M g OW x :: nat
  assumes "M + g * OW \<le> x" "x < M + g * OW + OW"
  shows "(x - M) div OW = g"
proof (rule div_nat_eqI)
  show "OW * g \<le> x - M" using assms by (simp add: mult.commute)
  show "x - M < OW * Suc g" using assms by (simp add: mult.commute)
qed

lemma block_of:
  fixes M OW x :: nat
  assumes "0 < OW" "M \<le> x"
  shows "M + ((x - M) div OW) * OW \<le> x \<and> x < M + ((x - M) div OW) * OW + OW"
proof -
  have "OW * ((x - M) div OW) \<le> x - M" by (rule times_div_less_eq_dividend)
  moreover have "x - M < OW + OW * ((x - M) div OW)"
    using assms(1) by (rule dividend_less_times_div)
  ultimately show ?thesis using assms(2) unfolding mult.commute [of "(x - M) div OW" OW]
    by linarith
qed

lemma body_union:
  fixes M V OW S E :: nat
  assumes "0 < OW"
  shows "(\<Union>g\<in>{g. g < V \<and> g mod S = E}. {M + g * OW ..< M + g * OW + OW})
           = {x. M \<le> x \<and> (x - M) div OW < V \<and> ((x - M) div OW) mod S = E}"
proof (intro set_eqI iffI)
  fix x assume "x \<in> (\<Union>g\<in>{g. g < V \<and> g mod S = E}. {M + g * OW ..< M + g * OW + OW})"
  then obtain g where g: "g < V" "g mod S = E" and lo: "M + g * OW \<le> x"
    and hi: "x < M + g * OW + OW"
    by auto
  have "(x - M) div OW = g" using lo hi by (rule block_div)
  moreover have "M \<le> x" using lo by simp
  ultimately show "x \<in> {x. M \<le> x \<and> (x - M) div OW < V \<and> ((x - M) div OW) mod S = E}"
    using g by simp
next
  fix x assume "x \<in> {x. M \<le> x \<and> (x - M) div OW < V \<and> ((x - M) div OW) mod S = E}"
  then have a: "M \<le> x" and b: "(x - M) div OW < V" and c: "((x - M) div OW) mod S = E"
    by simp_all
  let ?g = "(x - M) div OW"
  have "x \<in> {M + ?g * OW ..< M + ?g * OW + OW}" using block_of [OF assms a] by simp
  moreover have "?g \<in> {g. g < V \<and> g mod S = E}" using b c by simp
  ultimately show "x \<in> (\<Union>g\<in>{g. g < V \<and> g mod S = E}. {M + g * OW ..< M + g * OW + OW})"
    by (rule UN_I [rotated])
qed

lemma body_range:
  fixes M V OW :: nat
  assumes "0 < OW"
  shows "{x. M \<le> x \<and> (x - M) div OW < V} = {M ..< M + V * OW}"
proof (rule set_eqI)
  fix x
  have "((x - M) div OW < V) = (x - M < V * OW)"
    using assms by (rule div_less_iff_less_mult)
  then have "(M \<le> x \<and> (x - M) div OW < V) = (M \<le> x \<and> x < M + V * OW)"
    by linarith
  then show "(x \<in> {x. M \<le> x \<and> (x - M) div OW < V}) = (x \<in> {M ..< M + V * OW})"
    by simp
qed

lemma regions_cover:
  fixes M H T V N OW :: nat
  assumes OW: "0 < OW" and sum: "H + V * OW + T = N" and MH: "0 < V \<longrightarrow> M = H"
    and one: "\<not> 1 < OW \<longrightarrow> H = 0 \<and> T = 0"
  shows "{x. M \<le> x \<and> (x - M) div OW < V} \<union> (if 1 < OW then {0..<H} \<union> {N - T..<N} else {})
           = {0..<N}"
proof -
  have b: "{x. M \<le> x \<and> (x - M) div OW < V} = {H ..< H + V * OW}"
  proof (cases "0 < V")
    case True
    then show ?thesis using MH body_range [OF OW, of M V] by simp
  next
    case False
    then have "V = 0" by simp
    then show ?thesis by simp
  qed
  have t: "N - T = H + V * OW" using sum by simp
  show ?thesis
  proof (cases "1 < OW")
    case True
    have "{H ..< H + V * OW} \<union> ({0..<H} \<union> {H + V * OW..<N}) = {0..<N}"
      using sum by (auto simp: set_eq_iff)
    then show ?thesis unfolding b t using True by simp
  next
    case False
    then have "H = 0" "T = 0" "OW = 1" using one OW by simp_all
    then show ?thesis unfolding b using sum False by simp
  qed
qed

lemma regions_disjoint:
  fixes M H T V N OW :: nat
  assumes OW: "0 < OW" and sum: "H + V * OW + T = N" and MH: "0 < V \<longrightarrow> M = H"
  shows "{x. M \<le> x \<and> (x - M) div OW < V} \<inter> ({0..<H} \<union> {N - T..<N}) = {}"
proof -
  have b: "{x. M \<le> x \<and> (x - M) div OW < V} = {H ..< H + V * OW}"
  proof (cases "0 < V")
    case True
    then show ?thesis using MH body_range [OF OW, of M V] by simp
  next
    case False
    then have "V = 0" by simp
    then show ?thesis by simp
  qed
  have t: "N - T = H + V * OW" using sum by simp
  show ?thesis unfolding b t by (auto simp: set_eq_iff)
qed

lemma sum_list_upt_sum: "sum_list (map f [0..<S]) = (\<Sum>i<S. f i)"
  by (induction S) simp_all

lemma sum_single:
  fixes a v S :: nat
  assumes "v < S"
  shows "(\<Sum>i<S. if P \<and> v = i then a else 0) = (if P then a else 0)"
proof (cases P)
  case True
  have "(\<Sum>i\<in>{..<S}. if v = i then a else 0) = (if v \<in> {..<S} then a else 0)"
    using sum.delta' [of "{..<S}" v "\<lambda>_. a"] by simp
  then show ?thesis using True assms by simp
next
  case False
  then show ?thesis by simp
qed

subsection \<open>One thread\<close>

lemma thread_spec:
  fixes D :: "'a distribution" and "next" :: "'e \<Rightarrow> u32 \<times> 'e" and sz uintptr n :: u64
    and stride engine_id :: u32 and e :: 'e
  assumes ow: "output_width D \<noteq> 0" and s: "stride \<noteq> 0"
    and b: "unat n + unat stride \<le> 2 ^ 64" and id: "unat engine_id < unat stride"
  defines "mis \<equiv> misalignment (output_width D) sz uintptr"
  defines "hs \<equiv> head_size n mis"
  defines "ts \<equiv> tail_size (output_width D) n hs"
  defines "vn \<equiv> vec_n (output_width D) n hs"
  defines "G \<equiv> {g. g < unat vn \<and> g mod unat stride = unat engine_id}"
  defines "w \<equiv> 1 < unat (output_width D) \<and> unat vn mod unat stride = unat engine_id"
  shows "\<exists>st. generate_thread next D sz uintptr n stride engine_id e = Some st
     \<and> fst ` set (stores st) =
         (\<Union>g\<in>G. {unat mis + g * unat (output_width D) ..<
                   unat mis + g * unat (output_width D) + unat (output_width D)})
         \<union> (if w then {0..<unat hs} \<union> {unat n - unat ts ..< unat n} else {})
     \<and> length (stores st) = card G * unat (output_width D) + (if w then unat hs + unat ts else 0)
     \<and> draws st = (card G + (if w then (if 0 < hs then 1 else 0) + (if 0 < ts then 1 else 0) else 0))
                    * unat (input_width D)
     \<and> engine st = (advance next ^^ draws st) e"
proof -
  let ?OW = "unat (output_width D)" and ?IW = "unat (input_width D)"
  let ?S = "unat stride" and ?E = "unat engine_id"
  let ?st0 = "\<lparr>engine = e, stores = [], draws = 0\<rparr> :: ('e, 'a) thread_state"
  have m: "unat mis < ?OW" unfolding mis_def by (rule misalignment_less [OF ow])
  have H: "unat hs = min (unat n) (unat mis)" unfolding hs_def by (rule unat_head_size [OF m])
  have T: "unat ts = (unat n - unat hs) mod ?OW"
    unfolding ts_def hs_def by (rule unat_tail_size [OF m])
  have V: "unat vn = (unat n - unat hs) div ?OW"
    unfolding vn_def hs_def by (rule unat_vec_n [OF m])
  have h: "unat hs \<le> ?OW" using H m by simp
  have OWpos: "0 < ?OW" using m by simp
  have t: "unat ts \<le> ?OW" using T OWpos by (simp add: less_imp_le)
  have tn: "unat ts \<le> unat n"
  proof -
    have "unat ts \<le> unat n - unat hs" unfolding T by (rule mod_less_eq_dividend)
    then show ?thesis by simp
  qed
  have "unat vn \<le> unat n - unat hs" unfolding V by (rule div_le_dividend)
  then have b': "unat vn + ?S \<le> 2 ^ 64" using b by simp
  have Spos: "0 < ?S" using s by (simp add: unat_gt_0)
  let ?i0 = "ucast engine_id :: u64"
  from vec_loop_spec [OF b' s, of "next" D mis ?i0 ?st0]
  obtain idx' st1 k where
    lp: "vec_loop next D stride mis vn ?i0 ?st0 = Some (idx', st1)" and
    ix0: "unat idx' = unat ?i0 + k * ?S" and
    ge: "unat vn \<le> unat idx'" and
    al0: "\<forall>j<k. unat ?i0 + j * ?S < unat vn" and
    d0: "draws st1 = draws ?st0 + k * ?IW" and
    e0: "engine st1 = (advance next ^^ (k * ?IW)) (engine ?st0)" and
    l0: "length (stores st1) = length (stores ?st0) + k * ?OW" and
    w0: "fst ` set (stores st1) = fst ` set (stores ?st0) \<union>
           (\<Union>j<k. {unat mis + (unat ?i0 + j * ?S) * ?OW ..<
                     unat mis + (unat ?i0 + j * ?S) * ?OW + ?OW})"
    by (elim exE conjE) (rule that)
  have ix: "unat idx' = ?E + k * ?S" using ix0 by (simp only: unat_ucast_up)
  have al: "\<forall>j<k. ?E + j * ?S < unat vn" using al0 by (simp only: unat_ucast_up)
  have d1: "draws st1 = k * ?IW" using d0 by simp
  have e1: "engine st1 = (advance next ^^ (k * ?IW)) e" using e0 by simp
  have l1: "length (stores st1) = k * ?OW" using l0 by simp
  have w1: "fst ` set (stores st1) = (\<Union>j<k. {unat mis + (?E + j * ?S) * ?OW ..<
                                          unat mis + (?E + j * ?S) * ?OW + ?OW})"
    using w0 by (simp add: unat_ucast_up)
  have ge': "unat vn \<le> ?E + k * ?S" using ge ix by simp
  have img: "(\<lambda>j. ?E + j * ?S) ` {..<k} = G"
    unfolding G_def by (rule lane_groups_image [OF Spos id ge' al])
  have card: "card G = k" unfolding G_def by (rule lane_groups_card [OF Spos id ge' al])
  have "(idx' = vn) = (unat idx' = unat vn)" by (rule word_unat_eq_iff)
  also have "\<dots> = (unat vn mod ?S = ?E)"
    unfolding ix by (rule lane_final_index [OF Spos id ge' al])
  finally have fin: "(idx' = vn) = (unat vn mod ?S = ?E)" .
  have "(1 < output_width D) = (1 < ?OW)" by (simp add: word_less_nat_alt)
  then have cond: "(1 < output_width D \<and> idx' = vn) = w" unfolding w_def fin by simp
  let ?st = "save_head_tail next D n hs ts vn idx' st1"
  let ?c = "if w then (if 0 < hs then 1 else 0) + (if 0 < ts then 1 else 0) else (0::nat)"
  note sht = save_head_tail_state [OF h t tn, of "next" vn idx' st1, unfolded cond]
  have gt: "generate_thread next D sz uintptr n stride engine_id e = Some ?st"
    unfolding generate_thread_def Let_def mis_def [symmetric] hs_def [symmetric]
      ts_def [symmetric] vn_def [symmetric]
    by (simp add: lp)
  have body: "fst ` set (stores st1) = (\<Union>g\<in>G. {unat mis + g * ?OW ..< unat mis + g * ?OW + ?OW})"
    unfolding w1 img [symmetric] by simp
  have "set (map fst (stores ?st))
          = set (map fst (stores st1)) \<union>
            set (if w then [0..<unat hs] @ [unat n - unat ts ..< unat n] else [])"
    using sht by (simp only: set_append)
  moreover have "set (if w then [0..<unat hs] @ [unat n - unat ts ..< unat n] else [])
                   = (if w then {0..<unat hs} \<union> {unat n - unat ts ..< unat n} else {})"
    by (cases w) simp_all
  ultimately have offs: "fst ` set (stores ?st) =
         (\<Union>g\<in>G. {unat mis + g * ?OW ..< unat mis + g * ?OW + ?OW})
         \<union> (if w then {0..<unat hs} \<union> {unat n - unat ts ..< unat n} else {})"
    unfolding body [symmetric] by (simp only: set_map)
  have "length (map fst (stores ?st))
          = length (map fst (stores st1)) +
            length (if w then [0..<unat hs] @ [unat n - unat ts ..< unat n] else [])"
    using sht by (simp only: length_append)
  moreover have "length (if w then [0..<unat hs] @ [unat n - unat ts ..< unat n] else [])
                   = (if w then unat hs + unat ts else 0)"
    using tn by (cases w) simp_all
  ultimately have len: "length (stores ?st) = card G * ?OW + (if w then unat hs + unat ts else 0)"
    using l1 card by (simp only: length_map)
  have dr: "draws ?st = (card G + ?c) * ?IW"
    using sht d1 card by (simp add: add_mult_distrib)
  have "(card G + ?c) * ?IW = ?c * ?IW + k * ?IW"
    unfolding card by (simp only: add_mult_distrib add.commute)
  then have "(advance next ^^ ((card G + ?c) * ?IW)) e
          = (advance next ^^ (?c * ?IW)) ((advance next ^^ (k * ?IW)) e)"
    by (simp only: funpow_add comp_apply)
  then have en: "engine ?st = (advance next ^^ draws ?st) e"
    using sht e1 dr by simp
  from gt offs len dr en show ?thesis by blast
qed

subsection \<open>The threads of a launch\<close>

lemma upt_Suc_mult: "[0..<Suc g * B] = [0..<g * B] @ [g * B ..< B + g * B]"
proof -
  have "[0..<g * B + B] = [0..<g * B] @ [g * B ..< g * B + B]" by (rule upt_add_eq_append) simp
  then show ?thesis by (simp only: mult_Suc add.commute)
qed

lemma engine_ids_row:
  "map (\<lambda>t. word_of_nat b * blockDim + word_of_nat t :: u32) [0..<unat blockDim]
     = map word_of_nat [b * unat blockDim ..< unat blockDim + b * unat blockDim]"
proof -
  let ?B = "unat blockDim"
  have e: "word_of_nat b * blockDim + word_of_nat t = (word_of_nat (t + b * ?B) :: u32)" for t
    by simp
  have "[b * ?B ..< ?B + b * ?B] = map (\<lambda>t. t + b * ?B) [0..<?B]"
    by (rule map_add_upt [symmetric])
  then have "map (word_of_nat :: nat \<Rightarrow> u32) [b * ?B ..< ?B + b * ?B]
          = map (\<lambda>t. word_of_nat (t + b * ?B)) [0..<?B]"
    by (simp only: map_map comp_def)
  then show ?thesis by (simp only: e)
qed

lemma engine_ids_upt:
  "engine_ids gridDim blockDim = map word_of_nat [0..<unat gridDim * unat blockDim]"
proof -
  let ?B = "unat blockDim"
  let ?row = "\<lambda>b. map (\<lambda>t. word_of_nat b * blockDim + word_of_nat t :: u32) [0..<?B]"
  have "concat (map ?row [0..<g]) = map word_of_nat [0..<g * ?B]" for g
  proof (induction g)
    case 0
    show ?case by simp
  next
    case (Suc g)
    have "concat (map ?row [0..<Suc g]) = concat (map ?row [0..<g]) @ ?row g" by simp
    also have "\<dots> = map word_of_nat [0..<g * ?B] @ ?row g"
      by (simp only: Suc)
    also have "\<dots> = map word_of_nat [0..<g * ?B] @ map word_of_nat [g * ?B ..< ?B + g * ?B]"
      by (simp only: engine_ids_row)
    also have "\<dots> = map word_of_nat [0..<Suc g * ?B]"
      by (simp only: upt_Suc_mult map_append)
    finally show ?case .
  qed
  then show ?thesis unfolding engine_ids_def .
qed

lemma map_unat_word_of_nat:
  assumes "S < 2 ^ 32"
  shows "map unat (map (word_of_nat :: nat \<Rightarrow> u32) [0..<S]) = [0..<S]"
proof -
  have "map (unat \<circ> (word_of_nat :: nat \<Rightarrow> u32)) [0..<S] = map (\<lambda>i. i) [0..<S]"
  proof (rule map_cong [OF refl])
    fix i assume "i \<in> set [0..<S]"
    then have "i < 2 ^ 32" using assms by simp
    then show "(unat \<circ> (word_of_nat :: nat \<Rightarrow> u32)) i = i" by (simp add: unat_of_nat)
  qed
  then show ?thesis by simp
qed

lemma unat_stride:
  assumes "unat gridDim * unat blockDim < 2 ^ 32"
  shows "unat (gridDim * blockDim :: u32) = unat gridDim * unat blockDim"
proof -
  have "unat gridDim * unat blockDim < 2 ^ LENGTH(32)" using assms by simp
  then show ?thesis by (simp only: unat_mult_lem [THEN iffD1])
qed

lemma fold_update_length:
  "length (fold (\<lambda>i es. es[unat i := f i]) ids es) = length es"
  by (induction ids arbitrary: es) simp_all

lemma fold_update_other:
  "j \<notin> unat ` set ids \<Longrightarrow> fold (\<lambda>i es. es[unat i := f i]) ids es ! j = es ! j"
  by (induction ids arbitrary: es) simp_all

lemma fold_update_nth:
  assumes "distinct (map unat ids)" and "i \<in> set ids" and "unat i < length es"
  shows "fold (\<lambda>i es. es[unat i := f i]) ids es ! unat i = f i"
  using assms
proof (induction ids arbitrary: es)
  case Nil
  then show ?case by simp
next
  case (Cons a ids)
  show ?case
  proof (cases "i = a")
    case True
    have "unat a \<notin> unat ` set ids" using Cons.prems(1) by simp
    then have "fold (\<lambda>i es. es[unat i := f i]) ids (es[unat a := f a]) ! unat a
                 = es[unat a := f a] ! unat a"
      by (rule fold_update_other)
    then show ?thesis using True Cons.prems(3) by simp
  next
    case False
    then have "i \<in> set ids" using Cons.prems(2) by simp
    moreover have "distinct (map unat ids)" using Cons.prems(1) by simp
    moreover have "unat i < length (es[unat a := f a])" using Cons.prems(3) by simp
    ultimately show ?thesis using Cons.IH by simp
  qed
qed

lemma store_all_append: "store_all (a @ b) xs = store_all b (store_all a xs)"
  by (simp add: store_all_def)

lemma store_all_length: "length (store_all ws xs) = length xs"
  unfolding store_all_def by (induction ws arbitrary: xs) simp_all

lemma store_all_other:
  "i \<notin> fst ` set ws \<Longrightarrow> store_all ws xs ! i = xs ! i"
  unfolding store_all_def by (induction ws arbitrary: xs) simp_all

lemma store_all_written:
  assumes "i \<in> fst ` set ws" and "i < length xs" and "i < length ys"
  shows "store_all ws xs ! i = store_all ws ys ! i"
  using assms(1)
proof (induction ws rule: rev_induct)
  case Nil
  then show ?case by simp
next
  case (snoc w ws)
  have l: "i < length (store_all ws xs)" "i < length (store_all ws ys)"
    using assms(2,3) by (simp_all add: store_all_length)
  have step: "store_all (ws @ [w]) zs = (store_all ws zs)[fst w := snd w]" for zs :: "'a list"
    by (simp add: store_all_def)
  show ?case
  proof (cases "i = fst w")
    case True
    then show ?thesis using l by (simp add: step)
  next
    case False
    then have "i \<in> fst ` set ws" using snoc.prems by auto
    then show ?thesis using snoc.IH False by (simp add: step)
  qed
qed

lemma run_threads_spec:
  fixes L :: "u32 \<Rightarrow> ('e, 'a) thread_state"
  assumes "distinct (map unat ids)"
    and "\<And>i. i \<in> set ids \<Longrightarrow>
           generate_thread next D sz uintptr n stride i (es ! unat i) = Some (L i)"
  shows "run_threads (kernel_thread next D sz uintptr n stride) ids
           \<lparr>engines = es, data = xs, trace = tr, total_draws = d\<rparr>
         = Some \<lparr>engines = fold (\<lambda>i es. es[unat i := engine (L i)]) ids es,
                 data = store_all (concat (map (\<lambda>i. stores (L i)) ids)) xs,
                 trace = tr @ concat (map (\<lambda>i. stores (L i)) ids),
                 total_draws = d + sum_list (map (\<lambda>i. draws (L i)) ids)\<rparr>"
  using assms
proof (induction ids arbitrary: es xs tr d)
  case Nil
  show ?case by (simp add: store_all_def)
next
  case (Cons a ids)
  let ?es = "es[unat a := engine (L a)]"
  have a: "generate_thread next D sz uintptr n stride a (es ! unat a) = Some (L a)"
    using Cons.prems(2) by simp
  have kt: "kernel_thread next D sz uintptr n stride a
              \<lparr>engines = es, data = xs, trace = tr, total_draws = d\<rparr>
            = Some \<lparr>engines = ?es, data = store_all (stores (L a)) xs,
                    trace = tr @ stores (L a), total_draws = d + draws (L a)\<rparr>"
    by (simp add: kernel_thread_def a)
  have d: "distinct (map unat ids)" using Cons.prems(1) by simp
  have r: "generate_thread next D sz uintptr n stride i (?es ! unat i) = Some (L i)"
    if "i \<in> set ids" for i
  proof -
    have "unat i \<in> unat ` set ids" using that by (rule imageI)
    moreover have "unat a \<notin> unat ` set ids" using Cons.prems(1) by simp
    ultimately have "unat i \<noteq> unat a" by metis
    then have "?es ! unat i = es ! unat i" by simp
    then show ?thesis using Cons.prems(2) that by simp
  qed
  show ?case
    using Cons.IH [OF d r, of "store_all (stores (L a)) xs" "tr @ stores (L a)" "d + draws (L a)"]
    by (simp add: kt store_all_append)
qed

lemma thread_spec2:
  fixes D :: "'a distribution" and "next" :: "'e \<Rightarrow> u32 \<times> 'e" and sz uintptr n :: u64
    and stride engine_id :: u32 and e :: 'e
  assumes ow: "output_width D \<noteq> 0" and s: "stride \<noteq> 0"
    and b: "unat n + unat stride \<le> 2 ^ 64" and id: "unat engine_id < unat stride"
  defines "mis \<equiv> misalignment (output_width D) sz uintptr"
  defines "hs \<equiv> head_size n mis"
  defines "ts \<equiv> tail_size (output_width D) n hs"
  defines "vn \<equiv> vec_n (output_width D) n hs"
  defines "w \<equiv> 1 < unat (output_width D) \<and> unat vn mod unat stride = unat engine_id"
  shows "\<exists>st. generate_thread next D sz uintptr n stride engine_id e = Some st
     \<and> fst ` set (stores st) =
         {x. unat mis \<le> x \<and> (x - unat mis) div unat (output_width D) < unat vn
             \<and> ((x - unat mis) div unat (output_width D)) mod unat stride = unat engine_id}
         \<union> (if w then {0..<unat hs} \<union> {unat n - unat ts ..< unat n} else {})
     \<and> length (stores st) =
         card {g. g < unat vn \<and> g mod unat stride = unat engine_id} * unat (output_width D)
         + (if w then unat hs + unat ts else 0)
     \<and> draws st =
         (card {g. g < unat vn \<and> g mod unat stride = unat engine_id}
          + (if w then (if 0 < hs then 1 else 0) + (if 0 < ts then 1 else 0) else 0))
         * unat (input_width D)
     \<and> engine st = (advance next ^^ draws st) e"
proof -
  have "0 < unat (output_width D)" using ow by (simp add: unat_gt_0)
  note bu = body_union [OF this]
  show ?thesis
    using thread_spec [OF ow s b id, of "next" sz uintptr e]
    unfolding mis_def hs_def ts_def vn_def w_def bu .
qed


lemma kernel_explicit:
  fixes D :: "'a distribution" and "next" :: "'e \<Rightarrow> u32 \<times> 'e" and sz uintptr n :: u64
    and gridDim blockDim :: u32 and es :: "'e list"
  assumes ow: "output_width D \<noteq> 0" and S0: "0 < unat gridDim * unat blockDim"
    and S32: "unat gridDim * unat blockDim < 2 ^ 32"
    and b: "unat n + unat gridDim * unat blockDim \<le> 2 ^ 64"
  defines "S \<equiv> unat gridDim * unat blockDim"
  shows "\<exists>L. (\<forall>i<S. generate_thread next D sz uintptr n (gridDim * blockDim) (word_of_nat i) (es ! i)
                  = Some (L i))
       \<and> (\<forall>xs tr d. generate_kernel next D sz gridDim blockDim uintptr n
              \<lparr>engines = es, data = xs, trace = tr, total_draws = d\<rparr>
            = Some \<lparr>engines = fold (\<lambda>i e. e[unat i := engine (L (unat i))])
                                (map word_of_nat [0..<S] :: u32 list) es,
                    data = store_all (concat (map (\<lambda>i. stores (L i)) [0..<S])) xs,
                    trace = tr @ concat (map (\<lambda>i. stores (L i)) [0..<S]),
                    total_draws = d + (\<Sum>i<S. draws (L i))\<rparr>)"
proof -
  let ?stride = "gridDim * blockDim"
  define L where "L = (\<lambda>i. the (generate_thread next D sz uintptr n (gridDim * blockDim)
                            (word_of_nat i) (es ! i)))"
  have us: "unat ?stride = S" unfolding S_def by (rule unat_stride [OF S32])
  have s: "?stride \<noteq> 0" using us S0 unfolding S_def by (metis less_not_refl unat_0)
  have b': "unat n + unat ?stride \<le> 2 ^ 64" using b us unfolding S_def by simp
  have ui: "unat (word_of_nat i :: u32) = i" if "i < S" for i
    using that S32 unfolding S_def by (simp add: unat_of_nat)
  have th: "generate_thread next D sz uintptr n ?stride (word_of_nat i) (es ! i) = Some (L i)"
    if "i < S" for i
  proof -
    have "unat (word_of_nat i :: u32) < unat ?stride" using that ui us by simp
    from thread_spec2 [OF ow s b' this, of "next" sz uintptr "es ! i"]
    obtain st where "generate_thread next D sz uintptr n ?stride (word_of_nat i) (es ! i) = Some st"
      by (elim exE conjE) (rule that)
    then show ?thesis unfolding L_def by simp
  qed
  let ?ids = "map word_of_nat [0..<S] :: u32 list"
  let ?L = "\<lambda>i :: u32. L (unat i)"
  have mu: "map unat ?ids = [0..<S]" using S32 unfolding S_def by (rule map_unat_word_of_nat)
  have dist: "distinct (map unat ?ids)" unfolding mu by simp
  have each: "generate_thread next D sz uintptr n ?stride i (es ! unat i) = Some (?L i)"
    if "i \<in> set ?ids" for i
  proof -
    from that obtain j where j: "j < S" and i: "i = word_of_nat j" by auto
    show ?thesis unfolding i ui [OF j] by (rule th [OF j])
  qed
  have m1: "map (\<lambda>i. stores (?L i)) ?ids = map (\<lambda>i. stores (L i)) [0..<S]"
    unfolding map_map by (rule map_cong [OF refl]) (simp add: ui)
  have m2: "sum_list (map (\<lambda>i. draws (?L i)) ?ids) = (\<Sum>i<S. draws (L i))"
  proof -
    have "map (\<lambda>i. draws (?L i)) ?ids = map (\<lambda>i. draws (L i)) [0..<S]"
      unfolding map_map by (rule map_cong [OF refl]) (simp add: ui)
    then show ?thesis by (simp only: sum_list_upt_sum)
  qed
  have k: "generate_kernel next D sz gridDim blockDim uintptr n
              \<lparr>engines = es, data = xs, trace = tr, total_draws = d\<rparr>
            = Some \<lparr>engines = fold (\<lambda>i e. e[unat i := engine (L (unat i))]) ?ids es,
                    data = store_all (concat (map (\<lambda>i. stores (L i)) [0..<S])) xs,
                    trace = tr @ concat (map (\<lambda>i. stores (L i)) [0..<S]),
                    total_draws = d + (\<Sum>i<S. draws (L i))\<rparr>" for xs tr d
    unfolding generate_kernel_def engine_ids_upt S_def [symmetric]
    using run_threads_spec [of ?ids "next" D sz uintptr n ?stride es ?L xs tr d, OF dist each]
    by (simp only: m1 m2)
  show ?thesis
  proof (intro exI [of _ L] conjI allI impI)
    fix i assume "i < S"
    then show "generate_thread next D sz uintptr n ?stride (word_of_nat i) (es ! i) = Some (L i)"
      by (rule th)
  next
    fix xs tr d
    show "generate_kernel next D sz gridDim blockDim uintptr n
              \<lparr>engines = es, data = xs, trace = tr, total_draws = d\<rparr>
            = Some \<lparr>engines = fold (\<lambda>i e. e[unat i := engine (L (unat i))]) ?ids es,
                    data = store_all (concat (map (\<lambda>i. stores (L i)) [0..<S])) xs,
                    trace = tr @ concat (map (\<lambda>i. stores (L i)) [0..<S]),
                    total_draws = d + (\<Sum>i<S. draws (L i))\<rparr>"
      by (rule k)
  qed
qed

subsection \<open>A whole launch\<close>

lemma split_facts:
  fixes ow :: u32 and sz uintptr n :: u64
  assumes ow: "ow \<noteq> 0"
  defines "mis \<equiv> misalignment ow sz uintptr"
  defines "hs \<equiv> head_size n mis"
  defines "ts \<equiv> tail_size ow n hs"
  defines "vn \<equiv> vec_n ow n hs"
  shows "0 < unat ow
    \<and> unat hs + unat vn * unat ow + unat ts = unat n
    \<and> (0 < unat vn \<longrightarrow> unat mis = unat hs)
    \<and> (\<not> 1 < unat ow \<longrightarrow> unat hs = 0 \<and> unat ts = 0)
    \<and> (0 < hs) = (0 < unat hs) \<and> (0 < ts) = (0 < unat ts)"
proof (intro conjI)
  have m: "unat mis < unat ow" unfolding mis_def by (rule misalignment_less [OF ow])
  have H: "unat hs = min (unat n) (unat mis)" unfolding hs_def by (rule unat_head_size [OF m])
  have T: "unat ts = (unat n - unat hs) mod unat ow"
    unfolding ts_def hs_def by (rule unat_tail_size [OF m])
  have V: "unat vn = (unat n - unat hs) div unat ow"
    unfolding vn_def hs_def by (rule unat_vec_n [OF m])
  show pos: "0 < unat ow" using m by simp
  have "unat hs \<le> unat n" using H by simp
  then show "unat hs + unat vn * unat ow + unat ts = unat n" by (simp add: T V)
  show "0 < unat vn \<longrightarrow> unat mis = unat hs"
  proof
    assume "0 < unat vn"
    then have "unat ow \<le> unat n - unat hs" unfolding V using pos
      by (simp add: div_greater_zero_iff)
    then have "unat mis < unat n" using m by simp
    then show "unat mis = unat hs" using H by simp
  qed
  show "\<not> 1 < unat ow \<longrightarrow> unat hs = 0 \<and> unat ts = 0"
  proof
    assume "\<not> 1 < unat ow"
    then have o: "unat ow = 1" using pos by simp
    then have "unat mis = 0" using m by simp
    then have "unat hs = 0" using H by simp
    moreover have "unat ts = 0" using T o by simp
    ultimately show "unat hs = 0 \<and> unat ts = 0" by simp
  qed
  show "(0 < hs) = (0 < unat hs)" by (simp add: word_less_nat_alt)
  show "(0 < ts) = (0 < unat ts)" by (simp add: word_less_nat_alt)
qed

lemma UN_residues:
  fixes S V :: nat
  assumes "0 < S"
  shows "(\<Union>i<S. {x. P x \<and> Q x mod S = i}) = {x. P x}"
  using assms by auto

lemma UN_single:
  fixes S v :: nat
  assumes "v < S"
  shows "(\<Union>i<S. if c \<and> v = i then A else {}) = (if c then A else {})"
  using assms by (auto split: if_splits)


lemma kernel_result:
  fixes D :: "'a distribution" and "next" :: "'e \<Rightarrow> u32 \<times> 'e" and sz uintptr n :: u64
    and gridDim blockDim :: u32 and es :: "'e list"
  assumes ow: "output_width D \<noteq> 0" and S0: "0 < unat gridDim * unat blockDim"
    and S32: "unat gridDim * unat blockDim < 2 ^ 32"
    and b: "unat n + unat gridDim * unat blockDim \<le> 2 ^ 64"
  defines "S \<equiv> unat gridDim * unat blockDim"
  defines "mis \<equiv> misalignment (output_width D) sz uintptr"
  defines "hs \<equiv> head_size n mis"
  defines "ts \<equiv> tail_size (output_width D) n hs"
  defines "vn \<equiv> vec_n (output_width D) n hs"
  shows "\<exists>L W es' dr.
      (\<forall>i<S. generate_thread next D sz uintptr n (gridDim * blockDim) (word_of_nat i) (es ! i)
                = Some (L i)
              \<and> engine (L i) = (advance next ^^ draws (L i)) (es ! i))
    \<and> (\<forall>xs. generate_kernel next D sz gridDim blockDim uintptr n
                \<lparr>engines = es, data = xs, trace = [], total_draws = 0\<rparr>
              = Some \<lparr>engines = es', data = store_all W xs, trace = W, total_draws = dr\<rparr>)
    \<and> fst ` set W = {0..<unat n}
    \<and> length W = unat n
    \<and> dr = (unat vn + (if 0 < hs then 1 else 0) + (if 0 < ts then 1 else 0))
             * unat (input_width D)
    \<and> length es' = length es
    \<and> (\<forall>i<S. i < length es \<longrightarrow> es' ! i = engine (L i))
    \<and> (\<forall>i\<ge>S. es' ! i = es ! i)"
proof -
  let ?stride = "gridDim * blockDim"
  let ?OW = "unat (output_width D)" and ?IW = "unat (input_width D)"
  let ?M = "unat mis" and ?H = "unat hs" and ?T = "unat ts" and ?V = "unat vn" and ?N = "unat n"
  let ?c = "(if 0 < hs then 1 else 0) + (if 0 < ts then 1 else (0::nat))"
  let ?HT = "{0..<?H} \<union> {?N - ?T ..< ?N}"
  note sf0 = split_facts [OF ow, of n sz uintptr, folded mis_def, folded hs_def, folded ts_def vn_def]
  have OWpos: "0 < ?OW" using sf0 by (rule conjunct1)
  have sum: "?H + ?V * ?OW + ?T = ?N" using sf0 by (elim conjE)
  have sf3: "0 < ?V \<longrightarrow> ?M = ?H" using sf0 by (elim conjE)
  have sf4: "\<not> 1 < ?OW \<longrightarrow> ?H = 0 \<and> ?T = 0" using sf0 by (elim conjE)
  have sf5: "(0 < hs) = (0 < ?H)" using sf0 by (elim conjE)
  have sf6: "(0 < ts) = (0 < ?T)" using sf0 by (elim conjE)
  have us: "unat ?stride = S" unfolding S_def by (rule unat_stride [OF S32])
  have s: "?stride \<noteq> 0" using us S0 unfolding S_def by (metis less_not_refl unat_0)
  have b': "unat n + unat ?stride \<le> 2 ^ 64" using b us unfolding S_def by simp
  have Spos: "0 < S" using S0 unfolding S_def .
  have vS: "?V mod S < S" using Spos by simp
  have ui: "unat (word_of_nat i :: u32) = i" if "i < S" for i
    using that S32 unfolding S_def by (simp add: unat_of_nat)
  from kernel_explicit [OF ow S0 S32 b, of "next" sz uintptr es, folded S_def]
  obtain L where
    th: "\<forall>i<S. generate_thread next D sz uintptr n ?stride (word_of_nat i) (es ! i) = Some (L i)"
    and k: "\<forall>xs tr d. generate_kernel next D sz gridDim blockDim uintptr n
              \<lparr>engines = es, data = xs, trace = tr, total_draws = d\<rparr>
            = Some \<lparr>engines = fold (\<lambda>i e. e[unat i := engine (L (unat i))])
                                (map word_of_nat [0..<S] :: u32 list) es,
                    data = store_all (concat (map (\<lambda>i. stores (L i)) [0..<S])) xs,
                    trace = tr @ concat (map (\<lambda>i. stores (L i)) [0..<S]),
                    total_draws = d + (\<Sum>i<S. draws (L i))\<rparr>"
    by (elim exE conjE) (rule that)
  let ?W = "concat (map (\<lambda>i. stores (L i)) [0..<S])"
  let ?ids = "map word_of_nat [0..<S] :: u32 list"
  let ?es' = "fold (\<lambda>i e. e[unat i := engine (L (unat i))]) ?ids es"
  let ?dr = "\<Sum>i<S. draws (L i)"
  let ?G = "\<lambda>i. {g. g < ?V \<and> g mod S = i}"
  let ?w = "\<lambda>i. 1 < ?OW \<and> ?V mod S = i"
  have per: "fst ` set (stores (L i)) =
                {x. ?M \<le> x \<and> (x - ?M) div ?OW < ?V \<and> ((x - ?M) div ?OW) mod S = i}
                \<union> (if ?w i then ?HT else {})
           \<and> length (stores (L i)) = card (?G i) * ?OW + (if ?w i then ?H + ?T else 0)
           \<and> draws (L i) = (card (?G i) + (if ?w i then ?c else 0)) * ?IW
           \<and> engine (L i) = (advance next ^^ draws (L i)) (es ! i)"
    if i: "i < S" for i
  proof -
    have lt: "unat (word_of_nat i :: u32) < unat ?stride" using i ui us by simp
    from thread_spec2 [OF ow s b' lt, of "next" sz uintptr "es ! i",
        folded mis_def, folded hs_def, folded ts_def vn_def, unfolded us ui [OF i]]
    obtain st where
      g: "generate_thread next D sz uintptr n ?stride (word_of_nat i) (es ! i) = Some st" and
      f: "fst ` set (stores st) =
            {x. ?M \<le> x \<and> (x - ?M) div ?OW < ?V \<and> ((x - ?M) div ?OW) mod S = i}
            \<union> (if ?w i then ?HT else {})" and
      l: "length (stores st) = card (?G i) * ?OW + (if ?w i then ?H + ?T else 0)" and
      d: "draws st = (card (?G i) + (if ?w i then ?c else 0)) * ?IW" and
      e: "engine st = (advance next ^^ draws st) (es ! i)"
      by (elim exE conjE) (rule that)
    have "st = L i" using g th i by simp
    then show ?thesis using f l d e by simp
  qed
  have offs: "fst ` set ?W = {0..<?N}"
  proof -
    have "fst ` set ?W = (\<Union>i<S. fst ` set (stores (L i)))" by (auto simp: image_UN)
    also have "\<dots> = (\<Union>i<S. {x. ?M \<le> x \<and> (x - ?M) div ?OW < ?V
                                  \<and> ((x - ?M) div ?OW) mod S = i}
                            \<union> (if ?w i then ?HT else {}))"
      using per by simp
    also have "\<dots> = (\<Union>i<S. {x. (?M \<le> x \<and> (x - ?M) div ?OW < ?V)
                                  \<and> ((x - ?M) div ?OW) mod S = i})
                     \<union> (\<Union>i<S. if ?w i then ?HT else {})"
      by (simp only: UN_Un_distrib conj_assoc)
    also have "\<dots> = {x. ?M \<le> x \<and> (x - ?M) div ?OW < ?V} \<union> (if 1 < ?OW then ?HT else {})"
      by (simp only: UN_residues [OF Spos] UN_single [OF vS])
    also have "\<dots> = {0..<?N}"
      by (rule regions_cover [OF OWpos sum sf3 sf4])
    finally show ?thesis .
  qed
  have cards: "(\<Sum>i<S. card (?G i)) = ?V" by (rule groups_card_sum [OF Spos])
  have one: "(if 1 < ?OW then ?H + ?T else 0) = ?H + ?T" using sf4 by simp
  have onec: "(if 1 < ?OW then ?c else 0) = ?c" using sf4 sf5 sf6 by simp
  have len: "length ?W = ?N"
  proof -
    have "length ?W = (\<Sum>i<S. length (stores (L i)))"
      by (simp add: length_concat comp_def sum_list_upt_sum)
    also have "\<dots> = (\<Sum>i<S. card (?G i) * ?OW + (if ?w i then ?H + ?T else 0))"
      using per by simp
    also have "\<dots> = (\<Sum>i<S. card (?G i)) * ?OW + (\<Sum>i<S. if ?w i then ?H + ?T else 0)"
      by (simp only: sum.distrib sum_distrib_right)
    also have "\<dots> = ?V * ?OW + (?H + ?T)"
      by (simp only: cards sum_single [OF vS] one)
    finally show ?thesis using sum by simp
  qed
  have dr: "?dr = (?V + (if 0 < hs then 1 else 0) + (if 0 < ts then 1 else 0)) * ?IW"
  proof -
    have "?dr = (\<Sum>i<S. (card (?G i) + (if ?w i then ?c else 0)) * ?IW)"
      using per by simp
    also have "\<dots> = ((\<Sum>i<S. card (?G i)) + (\<Sum>i<S. if ?w i then ?c else 0)) * ?IW"
      by (simp only: sum_distrib_right [symmetric] sum.distrib)
    also have "\<dots> = (?V + ?c) * ?IW"
      by (simp only: cards sum_single [OF vS] onec)
    finally show ?thesis by (simp only: add.assoc)
  qed
  have mu: "map unat ?ids = [0..<S]" using S32 unfolding S_def by (rule map_unat_word_of_nat)
  have dist: "distinct (map unat ?ids)" unfolding mu by simp
  have lenes: "length ?es' = length es" by (rule fold_update_length)
  have upd: "?es' ! i = engine (L i)" if i: "i < S" and il: "i < length es" for i
  proof -
    have m: "(word_of_nat i :: u32) \<in> set ?ids" using i by simp
    have "unat (word_of_nat i :: u32) < length es" using il ui [OF i] by simp
    from fold_update_nth [OF dist m this, of "\<lambda>i. engine (L (unat i))"]
    show ?thesis by (simp only: ui [OF i])
  qed
  have oth: "?es' ! i = es ! i" if "S \<le> i" for i
  proof -
    have "unat ` set ?ids = set (map unat ?ids)" by (rule set_map [symmetric])
    then have "unat ` set ?ids = {0..<S}" unfolding mu by simp
    then have "i \<notin> unat ` set ?ids" using that by simp
    then show ?thesis by (rule fold_update_other)
  qed
  have kk: "generate_kernel next D sz gridDim blockDim uintptr n
                \<lparr>engines = es, data = xs, trace = [], total_draws = 0\<rparr>
              = Some \<lparr>engines = ?es', data = store_all ?W xs, trace = ?W, total_draws = ?dr\<rparr>"
    for xs
    using k [rule_format, of xs "[]" 0] by simp
  show ?thesis
  proof (intro exI [of _ L] exI [of _ ?W] exI [of _ ?es'] exI [of _ ?dr] conjI allI impI)
    fix i assume "i < S"
    then show "generate_thread next D sz uintptr n ?stride (word_of_nat i) (es ! i) = Some (L i)"
      using th by simp
  next
    fix i assume "i < S"
    then show "engine (L i) = (advance next ^^ draws (L i)) (es ! i)" using per by simp
  next
    fix xs
    show "generate_kernel next D sz gridDim blockDim uintptr n
                \<lparr>engines = es, data = xs, trace = [], total_draws = 0\<rparr>
              = Some \<lparr>engines = ?es', data = store_all ?W xs, trace = ?W, total_draws = ?dr\<rparr>"
      by (rule kk)
  next
    show "fst ` set ?W = {0..<?N}" by (rule offs)
    show "length ?W = ?N" by (rule len)
    show "?dr = (?V + (if 0 < hs then 1 else 0) + (if 0 < ts then 1 else 0)) * ?IW" by (rule dr)
    show "length ?es' = length es" by (rule lenes)
  next
    fix i assume "i < S" "i < length es"
    then show "?es' ! i = engine (L i)" by (rule upd)
  next
    fix i assume "S \<le> i"
    then show "?es' ! i = es ! i" by (rule oth)
  qed
qed

lemma ceil_div_groups:
  fixes V OW T :: nat
  assumes "0 < OW" and "T < OW"
  shows "(V * OW + T + OW - 1) div OW = V + (if 0 < T then 1 else 0)"
proof (cases "0 < T")
  case True
  have ne: "OW \<noteq> 0" using assms(1) by simp
  have "V * OW + T + OW - 1 = (T - 1) + Suc V * OW" using True by simp
  moreover have "((T - 1) + Suc V * OW) div OW = Suc V + (T - 1) div OW"
    using ne by (rule div_mult_self1)
  moreover have "(T - 1) div OW = 0" using assms(2) by simp
  ultimately show ?thesis using True by simp
next
  case False
  have ne: "OW \<noteq> 0" using assms(1) by simp
  have "V * OW + T + OW - 1 = (OW - 1) + V * OW" using False assms(1) by simp
  moreover have "((OW - 1) + V * OW) div OW = V + (OW - 1) div OW"
    using ne by (rule div_mult_self1)
  moreover have "(OW - 1) div OW = 0" using assms(1) by simp
  ultimately show ?thesis using False by simp
qed

lemma init_engines_spec:
  assumes S32: "unat gridDim * unat blockDim < 2 ^ 32"
    and len: "length es = unat gridDim * unat blockDim"
  shows "init_engines_kernel ctor gridDim blockDim es seed offset
           = map (\<lambda>i. ctor seed (word_of_nat i) offset) [0..<unat gridDim * unat blockDim]"
proof (rule nth_equalityI)
  let ?S = "unat gridDim * unat blockDim"
  let ?ids = "map word_of_nat [0..<?S] :: u32 list"
  let ?r = "fold (\<lambda>i es. es[unat i := ctor seed i offset]) ?ids es"
  have r: "init_engines_kernel ctor gridDim blockDim es seed offset = ?r"
    unfolding init_engines_kernel_def engine_ids_upt ..
  have mu: "map unat ?ids = [0..<?S]" using S32 by (rule map_unat_word_of_nat)
  have dist: "distinct (map unat ?ids)" unfolding mu by simp
  show "length (init_engines_kernel ctor gridDim blockDim es seed offset)
          = length (map (\<lambda>i. ctor seed (word_of_nat i) offset) [0..<?S])"
    unfolding r by (simp add: fold_update_length len)
  fix i assume "i < length (init_engines_kernel ctor gridDim blockDim es seed offset)"
  then have i: "i < ?S" unfolding r by (simp add: fold_update_length len)
  then have ui: "unat (word_of_nat i :: u32) = i" using S32 by (simp add: unat_of_nat)
  have m: "(word_of_nat i :: u32) \<in> set ?ids" using i by simp
  have "unat (word_of_nat i :: u32) < length es" using i ui len by simp
  from fold_update_nth [OF dist m this, of "\<lambda>i. ctor seed i offset"]
  have "?r ! i = ctor seed (word_of_nat i) offset" by (simp only: ui)
  then show "init_engines_kernel ctor gridDim blockDim es seed offset ! i
               = map (\<lambda>i. ctor seed (word_of_nat i) offset) [0..<?S] ! i"
    unfolding r using i by simp
qed

lemma store_all_take:
  assumes w: "fst ` set ws = {0..<n}" and "n \<le> length xs" and "n \<le> length ys"
  shows "take n (store_all ws xs) = take n (store_all ws ys)"
proof (rule nth_equalityI)
  show "length (take n (store_all ws xs)) = length (take n (store_all ws ys))"
    using assms(2,3) by (simp add: store_all_length)
  fix i assume "i < length (take n (store_all ws xs))"
  then have i: "i < n" by simp
  then have "i \<in> fst ` set ws" unfolding w by simp
  moreover have "i < length xs" "i < length ys" using i assms(2,3) by simp_all
  ultimately have "store_all ws xs ! i = store_all ws ys ! i" by (rule store_all_written)
  then show "take n (store_all ws xs) ! i = take n (store_all ws ys) ! i" using i by simp
qed

lemma final_index_spec:
  fixes D :: "'a distribution" and "next" :: "'e \<Rightarrow> u32 \<times> 'e" and vn mis :: u64
    and stride engine_id :: u32 and st0 :: "('e, 'a) thread_state"
  assumes s: "stride \<noteq> 0" and b: "unat vn + unat stride \<le> 2 ^ 64"
    and id: "unat engine_id < unat stride"
  shows "\<exists>idx st. vec_loop next D stride mis vn (ucast engine_id) st0 = Some (idx, st)
           \<and> (idx = vn) = (unat vn mod unat stride = unat engine_id)"
proof -
  let ?S = "unat stride" and ?E = "unat engine_id"
  let ?i0 = "ucast engine_id :: u64"
  have Spos: "0 < ?S" using s by (simp add: unat_gt_0)
  from vec_loop_spec [OF b s, of "next" D mis ?i0 st0]
  obtain idx' st1 k where
    lp: "vec_loop next D stride mis vn ?i0 st0 = Some (idx', st1)" and
    ix0: "unat idx' = unat ?i0 + k * ?S" and
    ge: "unat vn \<le> unat idx'" and
    al0: "\<forall>j<k. unat ?i0 + j * ?S < unat vn"
    by (elim exE conjE) (rule that)
  have ix: "unat idx' = ?E + k * ?S" using ix0 by (simp only: unat_ucast_up)
  have al: "\<forall>j<k. ?E + j * ?S < unat vn" using al0 by (simp only: unat_ucast_up)
  have ge': "unat vn \<le> ?E + k * ?S" using ge ix by simp
  have "(idx' = vn) = (unat idx' = unat vn)" by (rule word_unat_eq_iff)
  also have "\<dots> = (unat vn mod ?S = ?E)"
    unfolding ix by (rule lane_final_index [OF Spos id ge' al])
  finally have "(idx' = vn) = (unat vn mod ?S = ?E)" .
  with lp show ?thesis by blast
qed

subsection \<open>The contract of the kernel\<close>

text \<open>
  C1, as stated, fails in its count of draws. A buffer of four elements that starts one
  element after a two-element boundary has a head of one, one group of two and a tail of
  one: that is three calls of the functor and six draws, where the claim has
  \<open>ceil (4 / 2) * 2 = 4\<close>.
\<close>

theorem generate_draws_counterexample:
  "generate_kernel counter_call pair_distribution 4 1 2 4 4
     \<lparr>engines = [0, 16], data = [9, 9, 9, 9, 9], trace = [], total_draws = 0\<rparr>
   = Some \<lparr>engines = [2, 20], data = [16, 0, 1, 18, 9],
           trace = [(1, 0), (2, 1), (0, 16), (3, 18)], total_draws = 6\<rparr>
   \<and> (6::nat) \<noteq> ((unat (4::u64) + unat (output_width pair_distribution) - 1)
                    div unat (output_width pair_distribution))
                  * unat (input_width pair_distribution)"
proof
  show "generate_kernel counter_call pair_distribution 4 1 2 4 4
     \<lparr>engines = [0, 16], data = [9, 9, 9, 9, 9], trace = [], total_draws = 0\<rparr>
   = Some \<lparr>engines = [2, 20], data = [16, 0, 1, 18, 9],
           trace = [(1, 0), (2, 1), (0, 16), (3, 18)], total_draws = 6\<rparr>"
    by code_simp
  show "(6::nat) \<noteq> ((unat (4::u64) + unat (output_width pair_distribution) - 1)
                    div unat (output_width pair_distribution))
                  * unat (input_width pair_distribution)"
    by (simp add: pair_distribution_def)
qed

text \<open>
  C1, amended. For every call of the kernel whose index arithmetic does not wrap (the
  length plus the number of threads is at most \<open>2 ^ 64\<close>) and whose launch has between 1 and
  \<open>2 ^ 32 - 1\<close> threads, each with its slot in \<open>engines\<close>: the kernel ends; the offsets it
  stores to are exactly \<open>0 .. n - 1\<close>, in \<open>n\<close> single-element stores, and the buffer
  beyond is as before; the threads together draw
  \<open>(vec_n + (1 if head_size > 0) + (1 if tail_size > 0)) * input_width\<close> raw values, which
  is \<open>ceil (n / output_width) * input_width\<close> when the buffer is aligned; and every
  thread's slot of \<open>engines\<close> holds the engine that thread loaded, advanced by that thread's
  draws.
\<close>

theorem generate_kernel_contract:
  fixes D :: "'a distribution" and "next" :: "'e \<Rightarrow> u32 \<times> 'e" and sz uintptr n :: u64
    and gridDim blockDim :: u32 and es :: "'e list" and xs :: "'a list"
  assumes ow: "output_width D \<noteq> 0" and S0: "0 < unat gridDim * unat blockDim"
    and S32: "unat gridDim * unat blockDim < 2 ^ 32"
    and b: "unat n + unat gridDim * unat blockDim \<le> 2 ^ 64"
    and len: "unat gridDim * unat blockDim \<le> length es"
  defines "mis \<equiv> misalignment (output_width D) sz uintptr"
  defines "hs \<equiv> head_size n mis"
  defines "ts \<equiv> tail_size (output_width D) n hs"
  defines "vn \<equiv> vec_n (output_width D) n hs"
  shows "\<exists>k. generate_kernel next D sz gridDim blockDim uintptr n
                \<lparr>engines = es, data = xs, trace = [], total_draws = 0\<rparr> = Some k
     \<and> fst ` set (trace k) = {0..<unat n}
     \<and> length (trace k) = unat n
     \<and> data k = store_all (trace k) xs
     \<and> length (data k) = length xs
     \<and> (\<forall>i\<ge>unat n. data k ! i = xs ! i)
     \<and> total_draws k = (unat vn + (if 0 < hs then 1 else 0) + (if 0 < ts then 1 else 0))
                        * unat (input_width D)
     \<and> (hs = 0 \<longrightarrow> total_draws k =
           ((unat n + unat (output_width D) - 1) div unat (output_width D))
           * unat (input_width D))
     \<and> length (engines k) = length es
     \<and> (\<forall>i<unat gridDim * unat blockDim. \<exists>st.
           generate_thread next D sz uintptr n (gridDim * blockDim) (word_of_nat i) (es ! i)
             = Some st
           \<and> engines k ! i = engine st
           \<and> engine st = (advance next ^^ draws st) (es ! i))"
proof -
  let ?S = "unat gridDim * unat blockDim"
  let ?OW = "unat (output_width D)" and ?IW = "unat (input_width D)"
  from kernel_result [OF ow S0 S32 b, of "next" sz uintptr es,
      folded mis_def, folded hs_def, folded ts_def vn_def]
  obtain L W es' dr where
    th: "\<forall>i<?S. generate_thread next D sz uintptr n (gridDim * blockDim) (word_of_nat i) (es ! i)
                  = Some (L i)
                \<and> engine (L i) = (advance next ^^ draws (L i)) (es ! i)" and
    k: "\<forall>xs. generate_kernel next D sz gridDim blockDim uintptr n
                \<lparr>engines = es, data = xs, trace = [], total_draws = 0\<rparr>
              = Some \<lparr>engines = es', data = store_all W xs, trace = W, total_draws = dr\<rparr>" and
    offs: "fst ` set W = {0..<unat n}" and
    lw: "length W = unat n" and
    dr: "dr = (unat vn + (if 0 < hs then 1 else 0) + (if 0 < ts then 1 else 0)) * ?IW" and
    le: "length es' = length es" and
    upd: "\<forall>i<?S. i < length es \<longrightarrow> es' ! i = engine (L i)" and
    oth: "\<forall>i\<ge>?S. es' ! i = es ! i"
    by (elim exE conjE) (rule that)
  let ?k = "\<lparr>engines = es', data = store_all W xs, trace = W, total_draws = dr\<rparr>"
  have 1: "generate_kernel next D sz gridDim blockDim uintptr n
             \<lparr>engines = es, data = xs, trace = [], total_draws = 0\<rparr> = Some ?k"
    using k by (rule spec)
  have 5: "\<forall>i\<ge>unat n. store_all W xs ! i = xs ! i"
  proof (intro allI impI)
    fix i assume "unat n \<le> i"
    then have "i \<notin> fst ` set W" unfolding offs by simp
    then show "store_all W xs ! i = xs ! i" by (rule store_all_other)
  qed
  have 7: "hs = 0 \<longrightarrow> dr = ((unat n + ?OW - 1) div ?OW) * ?IW"
  proof
    assume h0: "hs = 0"
    have m: "unat mis < ?OW" unfolding mis_def by (rule misalignment_less [OF ow])
    have T: "unat ts = (unat n - unat hs) mod ?OW"
      unfolding ts_def hs_def by (rule unat_tail_size [OF m])
    have V: "unat vn = (unat n - unat hs) div ?OW"
      unfolding vn_def hs_def by (rule unat_vec_n [OF m])
    have pos: "0 < ?OW" using m by simp
    have tl: "unat ts < ?OW" unfolding T using pos by simp
    have n: "unat n = unat vn * ?OW + unat ts" unfolding T V using h0 by simp
    have "(unat vn * ?OW + unat ts + ?OW - 1) div ?OW = unat vn + (if 0 < unat ts then 1 else 0)"
      using pos tl by (rule ceil_div_groups)
    moreover have "(0 < ts) = (0 < unat ts)" by (simp add: word_less_nat_alt)
    ultimately show "dr = ((unat n + ?OW - 1) div ?OW) * ?IW"
      unfolding dr using h0 n by simp
  qed
  have 9: "\<forall>i<?S. \<exists>st.
           generate_thread next D sz uintptr n (gridDim * blockDim) (word_of_nat i) (es ! i)
             = Some st
           \<and> es' ! i = engine st
           \<and> engine st = (advance next ^^ draws st) (es ! i)"
  proof (intro allI impI)
    fix i assume i: "i < ?S"
    then have "i < length es" using len by simp
    then have "es' ! i = engine (L i)" using upd i by simp
    then show "\<exists>st. generate_thread next D sz uintptr n (gridDim * blockDim)
                      (word_of_nat i) (es ! i) = Some st
           \<and> es' ! i = engine st
           \<and> engine st = (advance next ^^ draws st) (es ! i)"
      using th i by blast
  qed
  show ?thesis
  proof (intro exI [of _ ?k] conjI)
    show "generate_kernel next D sz gridDim blockDim uintptr n
             \<lparr>engines = es, data = xs, trace = [], total_draws = 0\<rparr> = Some ?k" by (rule 1)
    show "fst ` set (trace ?k) = {0..<unat n}" using offs by simp
    show "length (trace ?k) = unat n" using lw by simp
    show "data ?k = store_all (trace ?k) xs" by simp
    show "length (data ?k) = length xs" by (simp add: store_all_length)
    show "\<forall>i\<ge>unat n. data ?k ! i = xs ! i" using 5 by simp
    show "total_draws ?k = (unat vn + (if 0 < hs then 1 else 0) + (if 0 < ts then 1 else 0)) * ?IW"
      using dr by simp
    show "hs = 0 \<longrightarrow> total_draws ?k = ((unat n + ?OW - 1) div ?OW) * ?IW" using 7 by simp
    show "length (engines ?k) = length es" using le by simp
    show "\<forall>i<?S. \<exists>st.
           generate_thread next D sz uintptr n (gridDim * blockDim) (word_of_nat i) (es ! i)
             = Some st
           \<and> engines ?k ! i = engine st
           \<and> engine st = (advance next ^^ draws st) (es ! i)"
      using 9 by simp
  qed
qed


theorem generate_kernel_contract_witness:
  "output_width pair_distribution \<noteq> 0
   \<and> 0 < unat (1::u32) * unat (2::u32)
   \<and> unat (1::u32) * unat (2::u32) < 2 ^ 32
   \<and> unat (4::u64) + unat (1::u32) * unat (2::u32) \<le> 2 ^ 64
   \<and> unat (1::u32) * unat (2::u32) \<le> length [0, 16 :: u32]
   \<and> (\<exists>k. generate_kernel counter_call pair_distribution 4 1 2 4 4
              \<lparr>engines = [0, 16], data = [9, 9, 9, 9, 9], trace = [], total_draws = 0\<rparr> = Some k
          \<and> fst ` set (trace k) = {0..<4}
          \<and> length (trace k) = 4
          \<and> data k ! 4 = 9
          \<and> total_draws k = 6)"
proof -
  have 1: "output_width pair_distribution \<noteq> 0" by (simp add: pair_distribution_def)
  have 2: "0 < unat (1::u32) * unat (2::u32)" by simp
  have 3: "unat (1::u32) * unat (2::u32) < 2 ^ 32" by simp
  have 4: "unat (4::u64) + unat (1::u32) * unat (2::u32) \<le> 2 ^ 64" by simp
  have 5: "unat (1::u32) * unat (2::u32) \<le> length [0, 16 :: u32]" by simp
  have v: "unat (vec_n 2 4 (head_size 4 (misalignment 2 4 4))) = 1"
    by (simp add: misalignment_def head_size_def vec_n_def)
  have h: "0 < head_size 4 (misalignment 2 4 4)"
    by (simp add: misalignment_def head_size_def)
  have t: "0 < tail_size 2 4 (head_size 4 (misalignment 2 4 4))"
    by (simp add: misalignment_def head_size_def tail_size_def)
  from generate_kernel_contract [OF 1 2 3 4 5, of counter_call 4 4 "[9, 9, 9, 9, 9]"]
  obtain k where
    k: "generate_kernel counter_call pair_distribution 4 1 2 4 4
          \<lparr>engines = [0, 16], data = [9, 9, 9, 9, 9], trace = [], total_draws = 0\<rparr> = Some k"
    and a: "fst ` set (trace k) = {0..<unat (4::u64)}"
    and l: "length (trace k) = unat (4::u64)"
    and o: "\<forall>i\<ge>unat (4::u64). data k ! i = [9, 9, 9, 9, 9 :: u32] ! i"
    and d: "total_draws k =
              (unat (vec_n (output_width pair_distribution) 4
                      (head_size 4 (misalignment (output_width pair_distribution) 4 4)))
               + (if 0 < head_size 4 (misalignment (output_width pair_distribution) 4 4)
                  then 1 else 0)
               + (if 0 < tail_size (output_width pair_distribution) 4
                           (head_size 4 (misalignment (output_width pair_distribution) 4 4))
                  then 1 else 0))
              * unat (input_width pair_distribution)"
    by (elim exE conjE) (rule that)
  have ow2: "output_width pair_distribution = 2" "input_width pair_distribution = 2"
    by (simp_all add: pair_distribution_def)
  have d': "total_draws k = 6" using d v h t unfolding ow2 by simp
  have o': "data k ! 4 = 9" using o by simp
  have a': "fst ` set (trace k) = {0..<4}" using a by simp
  have l': "length (trace k) = 4" using l by simp
  show ?thesis using 1 2 3 4 5 k a' l' o' d' by blast
qed

text \<open>
  C8. A thread of the kernel loads \<open>engines[engine_id]\<close>, stores its engine back there and
  changes no other slot. After a whole launch every slot of a thread holds what that
  thread loaded from it, advanced by the thread's own draws, and every other slot holds
  what it held.
\<close>

theorem engines_frame:
  fixes D :: "'a distribution" and "next" :: "'e \<Rightarrow> u32 \<times> 'e" and sz uintptr n :: u64
    and gridDim blockDim :: u32 and es :: "'e list" and xs :: "'a list"
  assumes ow: "output_width D \<noteq> 0" and S0: "0 < unat gridDim * unat blockDim"
    and S32: "unat gridDim * unat blockDim < 2 ^ 32"
    and b: "unat n + unat gridDim * unat blockDim \<le> 2 ^ 64"
    and len: "unat gridDim * unat blockDim \<le> length es"
  shows "(kernel_thread next D sz uintptr n stride engine_id k0 = Some k1 \<longrightarrow>
           (\<exists>st. generate_thread next D sz uintptr n stride engine_id
                    (engines k0 ! unat engine_id) = Some st
                 \<and> engines k1 = (engines k0)[unat engine_id := engine st])
           \<and> (\<forall>j. j \<noteq> unat engine_id \<longrightarrow> engines k1 ! j = engines k0 ! j))
       \<and> (\<exists>k. generate_kernel next D sz gridDim blockDim uintptr n
                 \<lparr>engines = es, data = xs, trace = [], total_draws = 0\<rparr> = Some k
             \<and> length (engines k) = length es
             \<and> (\<forall>i<unat gridDim * unat blockDim. \<exists>st.
                   generate_thread next D sz uintptr n (gridDim * blockDim) (word_of_nat i)
                     (es ! i) = Some st
                   \<and> engines k ! i = engine st
                   \<and> engine st = (advance next ^^ draws st) (es ! i))
             \<and> (\<forall>i\<ge>unat gridDim * unat blockDim. engines k ! i = es ! i))"
proof
  show "kernel_thread next D sz uintptr n stride engine_id k0 = Some k1 \<longrightarrow>
           (\<exists>st. generate_thread next D sz uintptr n stride engine_id
                    (engines k0 ! unat engine_id) = Some st
                 \<and> engines k1 = (engines k0)[unat engine_id := engine st])
           \<and> (\<forall>j. j \<noteq> unat engine_id \<longrightarrow> engines k1 ! j = engines k0 ! j)"
    by (auto simp: kernel_thread_def split: option.splits)
next
  let ?S = "unat gridDim * unat blockDim"
  from kernel_result [OF ow S0 S32 b, of "next" sz uintptr es]
  obtain L W es' dr where
    th: "\<forall>i<?S. generate_thread next D sz uintptr n (gridDim * blockDim) (word_of_nat i) (es ! i)
                  = Some (L i)
                \<and> engine (L i) = (advance next ^^ draws (L i)) (es ! i)" and
    k: "\<forall>xs. generate_kernel next D sz gridDim blockDim uintptr n
                \<lparr>engines = es, data = xs, trace = [], total_draws = 0\<rparr>
              = Some \<lparr>engines = es', data = store_all W xs, trace = W, total_draws = dr\<rparr>" and
    le: "length es' = length es" and
    upd: "\<forall>i<?S. i < length es \<longrightarrow> es' ! i = engine (L i)" and
    oth: "\<forall>i\<ge>?S. es' ! i = es ! i"
    by (elim exE conjE) (rule that)
  let ?k = "\<lparr>engines = es', data = store_all W xs, trace = W, total_draws = dr\<rparr>"
  have 1: "generate_kernel next D sz gridDim blockDim uintptr n
             \<lparr>engines = es, data = xs, trace = [], total_draws = 0\<rparr> = Some ?k"
    using k by (rule spec)
  have 9: "\<forall>i<?S. \<exists>st.
           generate_thread next D sz uintptr n (gridDim * blockDim) (word_of_nat i) (es ! i)
             = Some st
           \<and> es' ! i = engine st
           \<and> engine st = (advance next ^^ draws st) (es ! i)"
  proof (intro allI impI)
    fix i assume i: "i < ?S"
    then have "i < length es" using len by simp
    then have "es' ! i = engine (L i)" using upd i by simp
    then show "\<exists>st. generate_thread next D sz uintptr n (gridDim * blockDim)
                      (word_of_nat i) (es ! i) = Some st
           \<and> es' ! i = engine st
           \<and> engine st = (advance next ^^ draws st) (es ! i)"
      using th i by blast
  qed
  show "\<exists>k. generate_kernel next D sz gridDim blockDim uintptr n
                 \<lparr>engines = es, data = xs, trace = [], total_draws = 0\<rparr> = Some k
             \<and> length (engines k) = length es
             \<and> (\<forall>i<?S. \<exists>st.
                   generate_thread next D sz uintptr n (gridDim * blockDim) (word_of_nat i)
                     (es ! i) = Some st
                   \<and> engines k ! i = engine st
                   \<and> engine st = (advance next ^^ draws st) (es ! i))
             \<and> (\<forall>i\<ge>?S. engines k ! i = es ! i)"
  proof (intro exI [of _ ?k] conjI)
    show "generate_kernel next D sz gridDim blockDim uintptr n
             \<lparr>engines = es, data = xs, trace = [], total_draws = 0\<rparr> = Some ?k" by (rule 1)
    show "length (engines ?k) = length es" using le by simp
    show "\<forall>i<?S. \<exists>st.
           generate_thread next D sz uintptr n (gridDim * blockDim) (word_of_nat i) (es ! i)
             = Some st
           \<and> engines ?k ! i = engine st
           \<and> engine st = (advance next ^^ draws st) (es ! i)"
      using 9 by simp
    show "\<forall>i\<ge>?S. engines ?k ! i = es ! i" using oth by simp
  qed
qed

theorem engines_frame_witness:
  "output_width pair_distribution \<noteq> 0
   \<and> 0 < unat (1::u32) * unat (2::u32)
   \<and> unat (1::u32) * unat (2::u32) < 2 ^ 32
   \<and> unat (4::u64) + unat (1::u32) * unat (2::u32) \<le> 2 ^ 64
   \<and> unat (1::u32) * unat (2::u32) \<le> length [0, 16, 77 :: u32]
   \<and> kernel_thread counter_call pair_distribution 4 4 4 2 1
         \<lparr>engines = [0, 16, 77], data = [9, 9, 9, 9, 9], trace = [], total_draws = 0\<rparr>
       = Some \<lparr>engines = [0, 20, 77], data = [16, 9, 9, 18, 9], trace = [(0, 16), (3, 18)],
               total_draws = 4\<rparr>
   \<and> (\<exists>k. generate_kernel counter_call pair_distribution 4 1 2 4 4
              \<lparr>engines = [0, 16, 77], data = [9, 9, 9, 9, 9], trace = [], total_draws = 0\<rparr>
            = Some k
          \<and> length (engines k) = 3
          \<and> engines k ! 2 = 77)"
proof -
  have 1: "output_width pair_distribution \<noteq> 0" by (simp add: pair_distribution_def)
  have 2: "0 < unat (1::u32) * unat (2::u32)" by simp
  have 3: "unat (1::u32) * unat (2::u32) < 2 ^ 32" by simp
  have 4: "unat (4::u64) + unat (1::u32) * unat (2::u32) \<le> 2 ^ 64" by simp
  have 5: "unat (1::u32) * unat (2::u32) \<le> length [0, 16, 77 :: u32]" by simp
  have t: "kernel_thread counter_call pair_distribution 4 4 4 2 1
         \<lparr>engines = [0, 16, 77], data = [9, 9, 9, 9, 9], trace = [], total_draws = 0\<rparr>
       = Some \<lparr>engines = [0, 20, 77], data = [16, 9, 9, 18, 9], trace = [(0, 16), (3, 18)],
               total_draws = 4\<rparr>"
    by code_simp
  from engines_frame [OF 1 2 3 4 5, of counter_call 4 4]
  have "\<exists>k. generate_kernel counter_call pair_distribution 4 1 2 4 4
              \<lparr>engines = [0, 16, 77], data = [9, 9, 9, 9, 9], trace = [], total_draws = 0\<rparr>
            = Some k
          \<and> length (engines k) = length [0, 16, 77 :: u32]
          \<and> (\<forall>i<unat (1::u32) * unat (2::u32). \<exists>st.
                   generate_thread counter_call pair_distribution 4 4 4 (1 * 2) (word_of_nat i)
                     ([0, 16, 77] ! i) = Some st
                   \<and> engines k ! i = engine st
                   \<and> engine st = (advance counter_call ^^ draws st) ([0, 16, 77] ! i))
          \<and> (\<forall>i\<ge>unat (1::u32) * unat (2::u32). engines k ! i = [0, 16, 77] ! i)"
    by (rule conjunct2)
  then obtain k where
    k: "generate_kernel counter_call pair_distribution 4 1 2 4 4
              \<lparr>engines = [0, 16, 77], data = [9, 9, 9, 9, 9], trace = [], total_draws = 0\<rparr>
            = Some k"
    and l: "length (engines k) = length [0, 16, 77 :: u32]"
    and o: "\<forall>i\<ge>unat (1::u32) * unat (2::u32). engines k ! i = [0, 16, 77] ! i"
    by (elim exE conjE) (rule that)
  have l': "length (engines k) = 3" using l by simp
  have "engines k ! 2 = [0, 16, 77] ! 2" using o by simp
  then have o': "engines k ! 2 = 77" by simp
  show ?thesis using 1 2 3 4 5 t k l' o' by blast
qed

subsection \<open>One writer for the head and the tail\<close>

lemma body_bounds:
  fixes M H T V N OW :: nat
  assumes OW: "0 < OW" and MH: "0 < V \<longrightarrow> M = H"
  shows "{x. M \<le> x \<and> (x - M) div OW < V \<and> P x} \<subseteq> {H ..< H + V * OW}"
proof (cases "0 < V")
  case True
  then have "{x. M \<le> x \<and> (x - M) div OW < V} = {H ..< H + V * OW}"
    using MH body_range [OF OW, of M V] by simp
  then show ?thesis by blast
next
  case False
  then have "V = 0" by simp
  then show ?thesis by simp
qed

lemma lanes_disjoint:
  fixes M H T V N OW S i j :: nat
  assumes OW: "0 < OW" and sum: "H + V * OW + T = N" and MH: "0 < V \<longrightarrow> M = H"
    and ij: "i \<noteq> j"
  shows "({x. M \<le> x \<and> (x - M) div OW < V \<and> ((x - M) div OW) mod S = i}
            \<union> (if c \<and> V mod S = i then {0..<H} \<union> {N - T..<N} else {}))
       \<inter> ({x. M \<le> x \<and> (x - M) div OW < V \<and> ((x - M) div OW) mod S = j}
            \<union> (if c \<and> V mod S = j then {0..<H} \<union> {N - T..<N} else {})) = {}"
proof -
  let ?B = "\<lambda>i. {x. M \<le> x \<and> (x - M) div OW < V \<and> ((x - M) div OW) mod S = i}"
  let ?HT = "{0..<H} \<union> {N - T..<N}"
  have t: "N - T = H + V * OW" using sum by simp
  have bb: "?B i \<inter> ?B j = {}" using ij by auto
  have reg: "{H ..< H + V * OW} \<inter> ?HT = {}" unfolding t by (auto simp: set_eq_iff)
  have bi: "?B i \<inter> ?HT = {}"
    using body_bounds [OF OW MH, where P = "\<lambda>x. ((x - M) div OW) mod S = i"] reg by blast
  have bj: "?B j \<inter> ?HT = {}"
    using body_bounds [OF OW MH, where P = "\<lambda>x. ((x - M) div OW) mod S = j"] reg by blast
  show ?thesis
  proof (cases "c \<and> V mod S = i")
    case True
    then have nj: "\<not> (c \<and> V mod S = j)" using ij by simp
    have "(?B i \<union> ?HT) \<inter> (?B j \<union> {}) = {}" using bb bj by blast
    then show ?thesis by (simp only: if_P [OF True] if_not_P [OF nj])
  next
    case False
    show ?thesis
    proof (cases "c \<and> V mod S = j")
      case True
      have "(?B i \<union> {}) \<inter> (?B j \<union> ?HT) = {}" using bb bi by blast
      then show ?thesis by (simp only: if_P [OF True] if_not_P [OF False])
    next
      case nj: False
      have "(?B i \<union> {}) \<inter> (?B j \<union> {}) = {}" using bb by blast
      then show ?thesis by (simp only: if_not_P [OF nj] if_not_P [OF False])
    qed
  qed
qed

text \<open>
  C2. For every address, length and functor, in a launch whose index arithmetic does not
  wrap: every thread leaves the loop, and exactly one thread leaves it with its index
  equal to \<open>vec_n\<close>, the thread \<open>vec_n mod stride\<close>. Every other thread stores only into the
  aligned body, which is disjoint from the head and from the tail; where the output width
  is more than 1, that one thread stores the whole head and the whole tail (which are
  empty where the width is 1). No two threads store to the same element, and the head,
  the body and the tail are pairwise disjoint and make up \<open>data[0 .. n - 1]\<close>.
\<close>

theorem single_writer:
  fixes D :: "'a distribution" and "next" :: "'e \<Rightarrow> u32 \<times> 'e" and sz uintptr n :: u64
    and stride :: u32 and e :: "u32 \<Rightarrow> 'e"
  assumes ow: "output_width D \<noteq> 0" and s: "stride \<noteq> 0"
    and b: "unat n + unat stride \<le> 2 ^ 64"
  defines "mis \<equiv> misalignment (output_width D) sz uintptr"
  defines "hs \<equiv> head_size n mis"
  defines "ts \<equiv> tail_size (output_width D) n hs"
  defines "vn \<equiv> vec_n (output_width D) n hs"
  defines "writer \<equiv> word_of_nat (unat vn mod unat stride) :: u32"
  defines "body \<equiv> {unat hs ..< unat hs + unat vn * unat (output_width D)}"
  shows "writer < stride
     \<and> (\<forall>i < stride. \<exists>index st.
           vec_loop next D stride mis vn (ucast i) \<lparr>engine = e i, stores = [], draws = 0\<rparr>
             = Some (index, st)
           \<and> (index = vn) = (i = writer))
     \<and> (\<exists>!i. i < stride \<and> (\<exists>st.
           vec_loop next D stride mis vn (ucast i) \<lparr>engine = e i, stores = [], draws = 0\<rparr>
             = Some (vn, st)))
     \<and> (\<forall>i < stride. \<exists>st. generate_thread next D sz uintptr n stride i (e i) = Some st
           \<and> fst ` set (stores st) \<subseteq> {0..<unat n}
           \<and> (i \<noteq> writer \<or> \<not> 1 < output_width D \<longrightarrow> fst ` set (stores st) \<subseteq> body)
           \<and> (i = writer \<and> 1 < output_width D \<longrightarrow>
                {0..<unat hs} \<union> {unat n - unat ts ..< unat n} \<subseteq> fst ` set (stores st)))
     \<and> (\<forall>i < stride. \<forall>j < stride. \<forall>si sj.
           i \<noteq> j \<and> generate_thread next D sz uintptr n stride i (e i) = Some si
                 \<and> generate_thread next D sz uintptr n stride j (e j) = Some sj
           \<longrightarrow> fst ` set (stores si) \<inter> fst ` set (stores sj) = {})
     \<and> {0..<unat hs} \<inter> body = {}
     \<and> body \<inter> {unat n - unat ts ..< unat n} = {}
     \<and> {0..<unat hs} \<inter> {unat n - unat ts ..< unat n} = {}
     \<and> {0..<unat hs} \<union> body \<union> {unat n - unat ts ..< unat n} = {0..<unat n}"
proof -
  let ?OW = "unat (output_width D)"
  let ?M = "unat mis" and ?H = "unat hs" and ?T = "unat ts" and ?V = "unat vn" and ?N = "unat n"
  let ?S = "unat stride"
  let ?HT = "{0..<?H} \<union> {?N - ?T ..< ?N}"
  let ?B = "\<lambda>i. {x. ?M \<le> x \<and> (x - ?M) div ?OW < ?V \<and> ((x - ?M) div ?OW) mod ?S = i}"
  let ?run = "\<lambda>i. vec_loop next D stride mis vn (ucast i) \<lparr>engine = e i, stores = [], draws = 0\<rparr>"
  let ?thread = "\<lambda>i. generate_thread next D sz uintptr n stride i (e i)"
  note sf0 = split_facts [OF ow, of n sz uintptr, folded mis_def, folded hs_def,
      folded ts_def vn_def]
  have OWpos: "0 < ?OW" using sf0 by (rule conjunct1)
  have sum: "?H + ?V * ?OW + ?T = ?N" using sf0 by (elim conjE)
  have MH: "0 < ?V \<longrightarrow> ?M = ?H" using sf0 by (elim conjE)
  have t: "?N - ?T = ?H + ?V * ?OW" using sum by simp
  have Spos: "0 < ?S" using s by (simp add: unat_gt_0)
  have "?V \<le> ?V * ?OW" using OWpos by simp
  then have "?V \<le> ?N" using sum by linarith
  then have b': "?V + ?S \<le> 2 ^ 64" using b by simp
  have "?S < 2 ^ 32" using unsigned_less [of stride] by simp
  then have "?V mod ?S < 2 ^ 32" using Spos by (meson less_trans mod_less_divisor)
  then have uw: "unat writer = ?V mod ?S" unfolding writer_def by (simp add: unat_of_nat)
  have wlt: "writer < stride" using uw Spos by (simp add: word_less_nat_alt)
  have iw: "(?V mod ?S = unat i) = (i = writer)" for i :: u32
    using uw by (metis word_unat_eq_iff)
  have one: "(1 < output_width D) = (1 < ?OW)" by (simp add: word_less_nat_alt)
  have run: "\<exists>index st. ?run i = Some (index, st) \<and> (index = vn) = (i = writer)"
    if "i < stride" for i
  proof -
    have id: "unat i < ?S" using that by (simp add: word_less_nat_alt)
    show ?thesis
      using final_index_spec [OF s b' id, of "next" D mis "\<lparr>engine = e i, stores = [], draws = 0\<rparr>"]
      unfolding iw .
  qed
  have per: "\<exists>st. ?thread i = Some st
               \<and> fst ` set (stores st) =
                   ?B (unat i) \<union> (if 1 < ?OW \<and> ?V mod ?S = unat i then ?HT else {})"
    if "i < stride" for i
  proof -
    have id: "unat i < ?S" using that by (simp add: word_less_nat_alt)
    from thread_spec2 [OF ow s b id, of "next" sz uintptr "e i",
        folded mis_def, folded hs_def, folded ts_def vn_def]
    obtain st where "?thread i = Some st" and
      "fst ` set (stores st) =
         ?B (unat i) \<union> (if 1 < ?OW \<and> ?V mod ?S = unat i then ?HT else {})"
      by (elim exE conjE) (rule that)
    then show ?thesis by blast
  qed
  have Bsub: "?B i \<subseteq> body" for i
    unfolding body_def
    by (rule body_bounds [OF OWpos MH, where P = "\<lambda>x. ((x - ?M) div ?OW) mod ?S = i"])
  have r1: "{0..<?H} \<inter> body = {}" unfolding body_def by (auto simp: set_eq_iff)
  have r2: "body \<inter> {?N - ?T ..< ?N} = {}" unfolding body_def t by (auto simp: set_eq_iff)
  have r3: "{0..<?H} \<inter> {?N - ?T ..< ?N} = {}" unfolding t by (auto simp: set_eq_iff)
  have r4: "{0..<?H} \<union> body \<union> {?N - ?T ..< ?N} = {0..<?N}"
    unfolding body_def t using sum by (auto simp: set_eq_iff)
  have bN: "body \<subseteq> {0..<?N}" using r4 by blast
  have hN: "?HT \<subseteq> {0..<?N}" using r4 by blast
  have c2: "\<forall>i < stride. \<exists>index st. ?run i = Some (index, st) \<and> (index = vn) = (i = writer)"
    using run by blast
  have c3: "\<exists>!i. i < stride \<and> (\<exists>st. ?run i = Some (vn, st))"
  proof (rule ex1I [of _ writer])
    from run [OF wlt] obtain index st where
      "?run writer = Some (index, st)" and "(index = vn) = (writer = writer)" by blast
    then have "?run writer = Some (vn, st)" by simp
    then show "writer < stride \<and> (\<exists>st. ?run writer = Some (vn, st))" using wlt by blast
  next
    fix i assume a: "i < stride \<and> (\<exists>st. ?run i = Some (vn, st))"
    then obtain st where v: "?run i = Some (vn, st)" by blast
    from a run obtain index st' where
      r: "?run i = Some (index, st')" and q: "(index = vn) = (i = writer)" by blast
    from v r have "index = vn" by simp
    then show "i = writer" using q by simp
  qed
  have c4: "\<forall>i < stride. \<exists>st. ?thread i = Some st
           \<and> fst ` set (stores st) \<subseteq> {0..<?N}
           \<and> (i \<noteq> writer \<or> \<not> 1 < output_width D \<longrightarrow> fst ` set (stores st) \<subseteq> body)
           \<and> (i = writer \<and> 1 < output_width D \<longrightarrow> ?HT \<subseteq> fst ` set (stores st))"
  proof (intro allI impI)
    fix i assume "i < stride"
    from per [OF this] obtain st where
      g: "?thread i = Some st" and
      f: "fst ` set (stores st) =
            ?B (unat i) \<union> (if 1 < ?OW \<and> ?V mod ?S = unat i then ?HT else {})"
      by blast
    have "(if 1 < ?OW \<and> ?V mod ?S = unat i then ?HT else {}) \<subseteq> ?HT"
      by (rule if_split [THEN iffD2]) blast
    then have a: "fst ` set (stores st) \<subseteq> {0..<?N}"
      unfolding f using Bsub [of "unat i"] bN hN by blast
    have b1: "i \<noteq> writer \<or> \<not> 1 < output_width D \<longrightarrow> fst ` set (stores st) \<subseteq> body"
    proof
      assume "i \<noteq> writer \<or> \<not> 1 < output_width D"
      then have nw: "\<not> (1 < ?OW \<and> ?V mod ?S = unat i)" unfolding iw one by blast
      have "fst ` set (stores st) = ?B (unat i) \<union> {}"
        unfolding f by (simp only: if_not_P [OF nw])
      then show "fst ` set (stores st) \<subseteq> body" using Bsub [of "unat i"] by blast
    qed
    have b2: "i = writer \<and> 1 < output_width D \<longrightarrow> ?HT \<subseteq> fst ` set (stores st)"
    proof
      assume "i = writer \<and> 1 < output_width D"
      then have w: "1 < ?OW \<and> ?V mod ?S = unat i" unfolding iw one by blast
      have "fst ` set (stores st) = ?B (unat i) \<union> ?HT"
        unfolding f by (simp only: if_P [OF w])
      then show "?HT \<subseteq> fst ` set (stores st)" by blast
    qed
    show "\<exists>st. ?thread i = Some st
           \<and> fst ` set (stores st) \<subseteq> {0..<?N}
           \<and> (i \<noteq> writer \<or> \<not> 1 < output_width D \<longrightarrow> fst ` set (stores st) \<subseteq> body)
           \<and> (i = writer \<and> 1 < output_width D \<longrightarrow> ?HT \<subseteq> fst ` set (stores st))"
      using g a b1 b2 by blast
  qed
  have c5: "\<forall>i < stride. \<forall>j < stride. \<forall>si sj.
           i \<noteq> j \<and> ?thread i = Some si \<and> ?thread j = Some sj
           \<longrightarrow> fst ` set (stores si) \<inter> fst ` set (stores sj) = {}"
  proof (intro allI impI)
    fix i j si sj
    assume i: "i < stride" and j: "j < stride"
      and h: "i \<noteq> j \<and> ?thread i = Some si \<and> ?thread j = Some sj"
    from per [OF i] h have fi: "fst ` set (stores si) =
            ?B (unat i) \<union> (if 1 < ?OW \<and> ?V mod ?S = unat i then ?HT else {})" by auto
    from per [OF j] h have fj: "fst ` set (stores sj) =
            ?B (unat j) \<union> (if 1 < ?OW \<and> ?V mod ?S = unat j then ?HT else {})" by auto
    have "unat i \<noteq> unat j" using h by (simp add: word_unat_eq_iff)
    from lanes_disjoint [OF OWpos sum MH this, of ?S "1 < ?OW"]
    show "fst ` set (stores si) \<inter> fst ` set (stores sj) = {}" unfolding fi fj .
  qed
  show ?thesis using wlt c2 c3 c4 c5 r1 r2 r3 r4 by (intro conjI)
qed

theorem single_writer_witness:
  "output_width pair_distribution \<noteq> 0
   \<and> (2::u32) \<noteq> 0
   \<and> unat (4::u64) + unat (2::u32) \<le> 2 ^ 64
   \<and> (\<exists>!i. i < (2::u32) \<and>
         (\<exists>st. vec_loop counter_call pair_distribution 2
                (misalignment (output_width pair_distribution) 4 4)
                (vec_n (output_width pair_distribution) 4
                  (head_size 4 (misalignment (output_width pair_distribution) 4 4)))
                (ucast i) \<lparr>engine = id i, stores = [], draws = 0\<rparr> =
               Some
                (vec_n (output_width pair_distribution) 4
                  (head_size 4 (misalignment (output_width pair_distribution) 4 4)),
                 st)))
   \<and> fst ` set (stores \<lparr>engine = 2 :: u32, stores = [(1, 0), (2, 1 :: u32)], draws = 2\<rparr>)
       \<inter> fst ` set (stores \<lparr>engine = 5 :: u32, stores = [(0, 1), (3, 3 :: u32)], draws = 4\<rparr>)
       = {}
   \<and> generate_thread counter_call pair_distribution 4 4 4 2 0 (id 0)
       = Some \<lparr>engine = 2, stores = [(1, 0), (2, 1)], draws = 2\<rparr>
   \<and> generate_thread counter_call pair_distribution 4 4 4 2 1 (id 1)
       = Some \<lparr>engine = 5, stores = [(0, 1), (3, 3)], draws = 4\<rparr>"
proof -
  have 1: "output_width pair_distribution \<noteq> 0" by (simp add: pair_distribution_def)
  have 2: "(2::u32) \<noteq> 0" by simp
  have 3: "unat (4::u64) + unat (2::u32) \<le> 2 ^ 64" by simp
  note w = single_writer [OF 1 2 3, of 4 4 counter_call id]
  have a: "\<exists>!i. i < (2::u32) \<and>
         (\<exists>st. vec_loop counter_call pair_distribution 2
                (misalignment (output_width pair_distribution) 4 4)
                (vec_n (output_width pair_distribution) 4
                  (head_size 4 (misalignment (output_width pair_distribution) 4 4)))
                (ucast i) \<lparr>engine = id i, stores = [], draws = 0\<rparr> =
               Some
                (vec_n (output_width pair_distribution) 4
                  (head_size 4 (misalignment (output_width pair_distribution) 4 4)),
                 st))"
    using w by (elim conjE)
  have c: "\<forall>i < (2::u32). \<forall>j < (2::u32). \<forall>si sj.
         i \<noteq> j \<and> generate_thread counter_call pair_distribution 4 4 4 2 i (id i) = Some si
               \<and> generate_thread counter_call pair_distribution 4 4 4 2 j (id j) = Some sj
         \<longrightarrow> fst ` set (stores si) \<inter> fst ` set (stores sj) = {}"
    using w by (elim conjE)
  have t0: "generate_thread counter_call pair_distribution 4 4 4 2 0 (id 0)
       = Some \<lparr>engine = 2, stores = [(1, 0), (2, 1)], draws = 2\<rparr>"
    by code_simp
  have t1: "generate_thread counter_call pair_distribution 4 4 4 2 1 (id 1)
       = Some \<lparr>engine = 5, stores = [(0, 1), (3, 3)], draws = 4\<rparr>"
    by code_simp
  have "(0::u32) < 2" "(1::u32) < 2" "(0::u32) \<noteq> 1" by simp_all
  with c t0 t1 have d:
    "fst ` set (stores \<lparr>engine = 2 :: u32, stores = [(1, 0), (2, 1 :: u32)], draws = 2\<rparr>)
       \<inter> fst ` set (stores \<lparr>engine = 5 :: u32, stores = [(0, 1), (3, 3 :: u32)], draws = 4\<rparr>)
       = {}"
    by blast
  show ?thesis using 1 2 3 a d t0 t1 by (intro conjI)
qed

subsection \<open>Reset and generate again\<close>

lemma generate_thread_alignment:
  assumes "misalignment (output_width D) sz uintptr' = misalignment (output_width D) sz uintptr"
  shows "generate_thread next D sz uintptr' n stride engine_id e
           = generate_thread next D sz uintptr n stride engine_id e"
  unfolding generate_thread_def assms ..

lemma generate_kernel_alignment:
  assumes "misalignment (output_width D) sz uintptr' = misalignment (output_width D) sz uintptr"
  shows "generate_kernel next D sz gridDim blockDim uintptr' n k
           = generate_kernel next D sz gridDim blockDim uintptr n k"
proof -
  have "kernel_thread next D sz uintptr' n (gridDim * blockDim)
          = kernel_thread next D sz uintptr n (gridDim * blockDim)"
    by (intro ext) (simp add: kernel_thread_def generate_thread_alignment [OF assms])
  then show ?thesis by (simp add: generate_kernel_def)
qed

lemma generate_alignment:
  assumes "misalignment (output_width D) sz uintptr' = misalignment (output_width D) sz uintptr"
  shows "generate P D sz l_init l_gen uintptr' n h buf
           = generate P D sz l_init l_gen uintptr n h buf"
  unfolding generate_def generate_kernel_alignment [OF assms] ..

lemma generate_fresh:
  fixes P :: "'e platform" and D :: "'a distribution" and h :: "'e rocrand_mrg32k3a"
  assumes ow: "output_width D \<noteq> 0"
    and S0: "0 < unat (s_blocks P) * unat (s_threads P)"
    and S32: "unat (s_blocks P) * unat (s_threads P) < 2 ^ 32"
    and b: "unat n + unat (s_blocks P) * unat (s_threads P) \<le> 2 ^ 64"
    and fresh: "\<not> m_engines_initialized h"
    and len: "length (m_engines h) = unat (s_blocks P) * unat (s_threads P)"
  shows "\<exists>W es'. fst ` set W = {0..<unat n}
      \<and> (\<forall>h' buf. \<not> m_engines_initialized h' \<longrightarrow> m_seed h' = m_seed h
            \<longrightarrow> m_offset h' = m_offset h
            \<longrightarrow> length (m_engines h') = unat (s_blocks P) * unat (s_threads P)
            \<longrightarrow> generate P D sz Launched Launched uintptr n h' buf
                = Some (ROCRAND_STATUS_SUCCESS,
                        h'\<lparr>m_engines := es', m_engines_initialized := True\<rparr>,
                        store_all W buf))"
proof -
  let ?S = "unat (s_blocks P) * unat (s_threads P)"
  let ?E = "map (\<lambda>i. engine_ctor P (m_seed h) (word_of_nat i) (m_offset h)) [0..<?S]"
  from kernel_result [OF ow S0 S32 b, of "engine_call P" sz uintptr ?E]
  obtain L W es' dr where
    k: "\<forall>xs. generate_kernel (engine_call P) D sz (s_blocks P) (s_threads P) uintptr n
                \<lparr>engines = ?E, data = xs, trace = [], total_draws = 0\<rparr>
              = Some \<lparr>engines = es', data = store_all W xs, trace = W, total_draws = dr\<rparr>" and
    offs: "fst ` set W = {0..<unat n}"
    by (elim exE conjE) (rule that)
  have g: "generate P D sz Launched Launched uintptr n h' buf
             = Some (ROCRAND_STATUS_SUCCESS,
                     h'\<lparr>m_engines := es', m_engines_initialized := True\<rparr>, store_all W buf)"
    if f: "\<not> m_engines_initialized h'" and sd: "m_seed h' = m_seed h"
      and so: "m_offset h' = m_offset h" and l: "length (m_engines h') = ?S"
    for h' :: "'e rocrand_mrg32k3a" and buf
  proof -
    have ie: "init_engines_kernel (engine_ctor P) (s_blocks P) (s_threads P) (m_engines h')
                (m_seed h') (m_offset h') = ?E"
      unfolding sd so by (rule init_engines_spec [OF S32 l])
    have i: "init P Launched h' = (ROCRAND_STATUS_SUCCESS,
               h'\<lparr>m_engines := ?E, m_engines_initialized := True\<rparr>)"
      using f by (simp add: init_def ie)
    have kk: "generate_kernel (engine_call P) D sz (s_blocks P) (s_threads P) uintptr n
                \<lparr>engines = ?E, data = buf, trace = [], total_draws = 0\<rparr>
              = Some \<lparr>engines = es', data = store_all W buf, trace = W, total_draws = dr\<rparr>"
      using k by (rule spec)
    show ?thesis by (simp add: generate_def i kk)
  qed
  show ?thesis using offs g by blast
qed

text \<open>
  C4, as stated, fails where the second buffer is not aligned as the first one: the split
  into head, groups and tail depends on the address, and with it the element each draw
  goes to. The first \<^verbatim>\<open>generate\<close> fills four elements one element past a two-element
  boundary, the second one, after \<^verbatim>\<open>reset()\<close>, four elements on such a boundary: same
  seed, offset, lanes and functor, and other values.
\<close>

theorem reset_address_counterexample:
  "generate small_platform pair_distribution 4 Launched Launched 4 4 small_handle
       [9, 9, 9, 9, 9]
     = Some (ROCRAND_STATUS_SUCCESS,
             small_handle\<lparr>m_engines := [2, 20], m_engines_initialized := True\<rparr>,
             [16, 0, 1, 18, 9])
   \<and> generate small_platform pair_distribution 4 Launched Launched 8 4
       (reset (small_handle\<lparr>m_engines := [2, 20], m_engines_initialized := True\<rparr>))
       [9, 9, 9, 9, 9]
     = Some (ROCRAND_STATUS_SUCCESS,
             small_handle\<lparr>m_engines := [2, 18], m_engines_initialized := True\<rparr>,
             [0, 1, 16, 17, 9])
   \<and> take 4 [0, 1, 16, 17, 9 :: u32] \<noteq> take 4 [16, 0, 1, 18, 9]"
proof -
  have ie0: "init_engines_kernel counter_ctor 1 2 [0, 0] 12345 0 = [0, 16]" by code_simp
  have ie1: "init_engines_kernel counter_ctor 1 2 [2, 20] 12345 0 = [0, 16]" by code_simp
  have gk0: "generate_kernel counter_call pair_distribution 4 1 2 4 4
              \<lparr>engines = [0, 16], data = [9, 9, 9, 9, 9], trace = [], total_draws = 0\<rparr>
            = Some \<lparr>engines = [2, 20], data = [16, 0, 1, 18, 9],
                    trace = [(1, 0), (2, 1), (0, 16), (3, 18)], total_draws = 6\<rparr>"
    by code_simp
  have gk1: "generate_kernel counter_call pair_distribution 4 1 2 8 4
              \<lparr>engines = [0, 16], data = [9, 9, 9, 9, 9], trace = [], total_draws = 0\<rparr>
            = Some \<lparr>engines = [2, 18], data = [0, 1, 16, 17, 9],
                    trace = [(0, 0), (1, 1), (2, 16), (3, 17)], total_draws = 4\<rparr>"
    by code_simp
  have a: "generate small_platform pair_distribution 4 Launched Launched 4 4 small_handle
             [9, 9, 9, 9, 9]
           = Some (ROCRAND_STATUS_SUCCESS,
                   small_handle\<lparr>m_engines := [2, 20], m_engines_initialized := True\<rparr>,
                   [16, 0, 1, 18, 9])"
    by (simp add: generate_def init_def small_handle_def small_platform_def ie0 gk0)
  have b: "generate small_platform pair_distribution 4 Launched Launched 8 4
             (reset (small_handle\<lparr>m_engines := [2, 20], m_engines_initialized := True\<rparr>))
             [9, 9, 9, 9, 9]
           = Some (ROCRAND_STATUS_SUCCESS,
                   small_handle\<lparr>m_engines := [2, 18], m_engines_initialized := True\<rparr>,
                   [0, 1, 16, 17, 9])"
    by (simp add: generate_def init_def reset_def small_handle_def small_platform_def ie1 gk1)
  have c: "take 4 [0, 1, 16, 17, 9 :: u32] \<noteq> take 4 [16, 0, 1, 18, 9]" by simp
  show ?thesis using a b c by (intro conjI)
qed

text \<open>
  C4, amended. Take a handle that has not been initialised, and let \<^verbatim>\<open>generate\<close> fill a
  buffer of \<open>n\<close> elements. Later, in whatever state the engines are, \<^verbatim>\<open>reset()\<close> followed
  by \<^verbatim>\<open>generate\<close> with the same seed, offset, launch, functor and length, on a buffer whose
  misalignment relative to the output width is that of the first one (the same buffer,
  for one), every launch succeeding, returns success with the same \<open>n\<close> values, element
  for element, and leaves the same engines.
\<close>

theorem reset_reproduces:
  fixes P :: "'e platform" and D :: "'a distribution" and h0 h :: "'e rocrand_mrg32k3a"
  assumes ow: "output_width D \<noteq> 0"
    and S0: "0 < unat (s_blocks P) * unat (s_threads P)"
    and S32: "unat (s_blocks P) * unat (s_threads P) < 2 ^ 32"
    and b: "unat n + unat (s_blocks P) * unat (s_threads P) \<le> 2 ^ 64"
    and fresh: "\<not> m_engines_initialized h0"
    and len0: "length (m_engines h0) = unat (s_blocks P) * unat (s_threads P)"
    and seed: "m_seed h = m_seed h0" and offset: "m_offset h = m_offset h0"
    and len: "length (m_engines h) = unat (s_blocks P) * unat (s_threads P)"
    and buf0: "unat n \<le> length buf0" and buf: "unat n \<le> length buf"
    and al: "misalignment (output_width D) sz uintptr'
               = misalignment (output_width D) sz uintptr"
  shows "\<exists>h1 out1 h2 out2.
       generate P D sz Launched Launched uintptr n h0 buf0
         = Some (ROCRAND_STATUS_SUCCESS, h1, out1)
     \<and> generate P D sz Launched Launched uintptr' n (reset h) buf
         = Some (ROCRAND_STATUS_SUCCESS, h2, out2)
     \<and> take (unat n) out2 = take (unat n) out1
     \<and> m_engines h2 = m_engines h1"
proof -
  from generate_fresh [OF ow S0 S32 b fresh len0, of sz uintptr]
  obtain W es' where
    offs: "fst ` set W = {0..<unat n}" and
    g: "\<forall>h' buf. \<not> m_engines_initialized h' \<longrightarrow> m_seed h' = m_seed h0
            \<longrightarrow> m_offset h' = m_offset h0
            \<longrightarrow> length (m_engines h') = unat (s_blocks P) * unat (s_threads P)
            \<longrightarrow> generate P D sz Launched Launched uintptr n h' buf
                = Some (ROCRAND_STATUS_SUCCESS,
                        h'\<lparr>m_engines := es', m_engines_initialized := True\<rparr>,
                        store_all W buf)"
    by (elim exE conjE) (rule that)
  have g0: "generate P D sz Launched Launched uintptr n h0 buf0
              = Some (ROCRAND_STATUS_SUCCESS,
                      h0\<lparr>m_engines := es', m_engines_initialized := True\<rparr>, store_all W buf0)"
    using g fresh len0 by simp
  have r: "\<not> m_engines_initialized (reset h)" "m_seed (reset h) = m_seed h0"
    "m_offset (reset h) = m_offset h0"
    "length (m_engines (reset h)) = unat (s_blocks P) * unat (s_threads P)"
    using seed offset len by (simp_all add: reset_def)
  have "generate P D sz Launched Launched uintptr n (reset h) buf
              = Some (ROCRAND_STATUS_SUCCESS,
                      (reset h)\<lparr>m_engines := es', m_engines_initialized := True\<rparr>,
                      store_all W buf)"
    using g r by simp
  then have g1: "generate P D sz Launched Launched uintptr' n (reset h) buf
              = Some (ROCRAND_STATUS_SUCCESS,
                      (reset h)\<lparr>m_engines := es', m_engines_initialized := True\<rparr>,
                      store_all W buf)"
    by (simp only: generate_alignment [OF al])
  have t: "take (unat n) (store_all W buf) = take (unat n) (store_all W buf0)"
    using offs buf buf0 by (rule store_all_take)
  show ?thesis using g0 g1 t by simp
qed

theorem reset_reproduces_witness:
  "output_width pair_distribution \<noteq> 0
   \<and> 0 < unat (s_blocks small_platform) * unat (s_threads small_platform)
   \<and> unat (s_blocks small_platform) * unat (s_threads small_platform) < 2 ^ 32
   \<and> unat (4::u64) + unat (s_blocks small_platform) * unat (s_threads small_platform) \<le> 2 ^ 64
   \<and> \<not> m_engines_initialized small_handle
   \<and> length (m_engines small_handle)
       = unat (s_blocks small_platform) * unat (s_threads small_platform)
   \<and> unat (4::u64) \<le> length [9, 9, 9, 9, 9 :: u32]
   \<and> unat (4::u64) \<le> length [7, 7, 7, 7, 7, 7 :: u32]
   \<and> misalignment (output_width pair_distribution) 4 12
       = misalignment (output_width pair_distribution) 4 4
   \<and> generate small_platform pair_distribution 4 Launched Launched 4 4 small_handle
         [9, 9, 9, 9, 9]
       = Some (ROCRAND_STATUS_SUCCESS,
               small_handle\<lparr>m_engines := [2, 20], m_engines_initialized := True\<rparr>,
               [16, 0, 1, 18, 9])
   \<and> (\<exists>h2 out2.
         generate small_platform pair_distribution 4 Launched Launched 12 4
           (reset (small_handle\<lparr>m_engines := [2, 20], m_engines_initialized := True\<rparr>))
           [7, 7, 7, 7, 7, 7]
         = Some (ROCRAND_STATUS_SUCCESS, h2, out2)
       \<and> take 4 out2 = [16, 0, 1, 18])"
proof -
  let ?h1 = "small_handle\<lparr>m_engines := [2, 20], m_engines_initialized := True\<rparr>"
  have 1: "output_width pair_distribution \<noteq> 0" by (simp add: pair_distribution_def)
  have S: "unat (s_blocks small_platform) * unat (s_threads small_platform) = 2"
    by (simp add: small_platform_def)
  have 2: "0 < unat (s_blocks small_platform) * unat (s_threads small_platform)"
    unfolding S by simp
  have 3: "unat (s_blocks small_platform) * unat (s_threads small_platform) < 2 ^ 32"
    unfolding S by simp
  have 4: "unat (4::u64) + unat (s_blocks small_platform) * unat (s_threads small_platform)
             \<le> 2 ^ 64"
    unfolding S by simp
  have 5: "\<not> m_engines_initialized small_handle" by (simp add: small_handle_def)
  have 6: "length (m_engines small_handle)
             = unat (s_blocks small_platform) * unat (s_threads small_platform)"
    unfolding S by (simp add: small_handle_def)
  have 7: "m_seed ?h1 = m_seed small_handle" by simp
  have 8: "m_offset ?h1 = m_offset small_handle" by simp
  have 9: "length (m_engines ?h1)
             = unat (s_blocks small_platform) * unat (s_threads small_platform)"
    unfolding S by simp
  have 10: "unat (4::u64) \<le> length [9, 9, 9, 9, 9 :: u32]" by simp
  have 11: "unat (4::u64) \<le> length [7, 7, 7, 7, 7, 7 :: u32]" by simp
  have 12: "misalignment (output_width pair_distribution) 4 12
              = misalignment (output_width pair_distribution) 4 4"
  proof -
    have "misalignment 2 4 12 = misalignment 2 4 4" by code_simp
    then show ?thesis by (simp add: pair_distribution_def)
  qed
  have g: "generate small_platform pair_distribution 4 Launched Launched 4 4 small_handle
             [9, 9, 9, 9, 9]
           = Some (ROCRAND_STATUS_SUCCESS, ?h1, [16, 0, 1, 18, 9])"
  proof -
    have ie: "init_engines_kernel counter_ctor 1 2 [0, 0] 12345 0 = [0, 16]" by code_simp
    have gk: "generate_kernel counter_call pair_distribution 4 1 2 4 4
                \<lparr>engines = [0, 16], data = [9, 9, 9, 9, 9], trace = [], total_draws = 0\<rparr>
              = Some \<lparr>engines = [2, 20], data = [16, 0, 1, 18, 9],
                      trace = [(1, 0), (2, 1), (0, 16), (3, 18)], total_draws = 6\<rparr>"
      by code_simp
    show ?thesis
      by (simp add: generate_def init_def small_handle_def small_platform_def ie gk)
  qed
  from reset_reproduces [OF 1 2 3 4 5 6 7 8 9 10 11 12]
  obtain h1 out1 h2 out2 where
    a: "generate small_platform pair_distribution 4 Launched Launched 4 4 small_handle
          [9, 9, 9, 9, 9]
          = Some (ROCRAND_STATUS_SUCCESS, h1, out1)" and
    b: "generate small_platform pair_distribution 4 Launched Launched 12 4 (reset ?h1)
          [7, 7, 7, 7, 7, 7]
          = Some (ROCRAND_STATUS_SUCCESS, h2, out2)" and
    t: "take (unat (4::u64)) out2 = take (unat (4::u64)) out1"
    by (elim exE conjE) (rule that)
  have "out1 = [16, 0, 1, 18, 9]" using a g by simp
  then have t': "take 4 out2 = [16, 0, 1, 18]" using t by simp
  show ?thesis using 1 2 3 4 5 6 10 11 12 g b t' by blast
qed

end
